theory Spec2Isabelle
  imports Main "HOL-Library.Word" "HOL-Library.AList"
begin

section \<open>Data model of the execution engine (jtbd/runner.go)\<close>

text \<open>
  Go's \<open>int\<close> and \<open>time.Duration\<close> are taken as 64-bit two's complement words
  (read with \<open>sint\<close>), the atomic counters as 32-bit words. \<open>ExecutionMode\<close> and
  \<open>TestStatus\<close> are string types in the source and stay strings here.
  Wall-clock readings (\<open>StartTime\<close>, \<open>EndTime\<close>, \<open>Duration\<close>) and the unused
  \<open>Output\<close> field are left out of \<open>ExecutionResult\<close>: real time is not modelled.
\<close>

type_synonym ExecutionMode = string

definition ExecutionModeSequential :: ExecutionMode where
  "ExecutionModeSequential = ''sequential''"

definition ExecutionModeParallel :: ExecutionMode where
  "ExecutionModeParallel = ''parallel''"

definition ExecutionModeFailFast :: ExecutionMode where
  "ExecutionModeFailFast = ''fail-fast''"

definition ExecutionModeComprehensive :: ExecutionMode where
  "ExecutionModeComprehensive = ''comprehensive''"

type_synonym TestStatus = string

definition TestStatusPending :: TestStatus where
  "TestStatusPending = ''pending''"

definition TestStatusRunning :: TestStatus where
  "TestStatusRunning = ''running''"

definition TestStatusPassed :: TestStatus where
  "TestStatusPassed = ''passed''"

definition TestStatusFailed :: TestStatus where
  "TestStatusFailed = ''failed''"

definition TestStatusSkipped :: TestStatus where
  "TestStatusSkipped = ''skipped''"

definition TestStatusRetrying :: TestStatus where
  "TestStatusRetrying = ''retrying''"

lemmas status_defs =
  TestStatusPending_def TestStatusRunning_def TestStatusPassed_def
  TestStatusFailed_def TestStatusSkipped_def TestStatusRetrying_def

lemmas mode_defs =
  ExecutionModeSequential_def ExecutionModeParallel_def
  ExecutionModeFailFast_def ExecutionModeComprehensive_def

text \<open>
  The error values the engine builds with \<open>fmt.Errorf\<close>, one constructor for each
  format string; \<open>CallbackError\<close> is an error returned by a caller's hook,
  \<open>ContextError\<close> is \<open>ctx.Err()\<close>, and \<open>NilDereference\<close> is the run-time panic of
  calling \<open>Error()\<close> on a nil error.
\<close>

datatype error =
    NoTestsProvided
  | PlanCreationFailed error
  | UnknownExecutionMode string
  | CircularDependencyInvolving string
  | CircularDependencyDetected
  | SetupFailed error
  | ExecuteFailed error
  | NoExecuteFunction
  | TestFailedError string
  | ContextError
  | CallbackError string
  | NilDereference

datatype Context = Background | WithTimeout Context "64 word"

text \<open>
  A lifecycle hook is caller code: it receives a context and may change anything outside
  the engine. That outside is the world \<open>'w\<close>; a hook returns its error (\<open>None\<close> for
  nil) and the new world.
\<close>

type_synonym 'w hook = "Context \<Rightarrow> 'w \<Rightarrow> error option \<times> 'w"

record 'w Test =
  ID :: string
  Name :: string
  Description :: string
  Dependencies :: "string list"
  Priority :: "64 word"
  Timeout :: "64 word"
  MaxRetries :: "64 word"
  Setup :: "'w hook option"
  Execute :: "'w hook option"
  Teardown :: "'w hook option"

record ExecutionResult =
  TestID :: string
  Status :: TestStatus
  Error :: "error option"
  RetryCount :: int
  SkipReason :: string

record RunConfig =
  Mode :: ExecutionMode
  MaxWorkers :: "64 word"
  GlobalTimeout :: "64 word"
  TestTimeout :: "64 word"
  EnableRetry :: bool
  IsolateTests :: bool

record 'w ExecutionPlan =
  planTests :: "'w Test list"
  dependencies :: "(string \<times> string list) list"
  completed :: "string set"
  failed :: "string set"

record TestMetrics =
  Total :: "32 word"
  Passed :: "32 word"
  Failed :: "32 word"
  Skipped :: "32 word"
  Retries :: "32 word"

section \<open>ExecutionPlan: cycle detection\<close>

text \<open>
  \<open>ep.dependencies\<close> is a Go map from test ID to dependency list, kept here as an
  association list updated in place; reading a key that is absent gives the nil slice.
\<close>

definition depsOf :: "(string \<times> string list) list \<Rightarrow> string \<Rightarrow> string list" where
  "depsOf deps testID = (case map_of deps testID of None \<Rightarrow> [] | Some ds \<Rightarrow> ds)"

text \<open>
  \<open>hasCycle\<close> (lines 653-669). The two \<open>map[string]bool\<close> arguments are the sets of
  keys mapped to true; the source mutates them, the model returns them.
  \<open>hasCycleDeps\<close> is the \<open>for _, depID := range ep.dependencies[testID]\<close> loop.
\<close>

function hasCycle ::
    "(string \<times> string list) list \<Rightarrow> string \<Rightarrow> string set \<times> string set
      \<Rightarrow> bool \<times> string set \<times> string set"
  and hasCycleDeps ::
    "(string \<times> string list) list \<Rightarrow> string list \<Rightarrow> string set \<times> string set
      \<Rightarrow> bool \<times> string set \<times> string set"
where
  "hasCycle deps testID (visited, recStack) =
     (let (found, visited', recStack') =
            hasCycleDeps deps (depsOf deps testID)
              (insert testID visited, insert testID recStack)
      in if found then (True, visited', recStack')
         else (False, visited', recStack' - {testID}))"
| "hasCycleDeps deps [] st = (False, st)"
| "hasCycleDeps deps (depID # rest) (visited, recStack) =
     (if depID \<notin> visited then
        (let (found, st') = hasCycle deps depID (visited, recStack)
         in if found then (True, st') else hasCycleDeps deps rest st')
      else if depID \<in> recStack then (True, visited, recStack)
      else hasCycleDeps deps rest (visited, recStack))"
  by pat_completeness auto

text \<open>
  Termination of the search: every recursive descent marks one more node of the finite
  graph as visited, and the visited set never shrinks.
\<close>

definition graphNodes :: "(string \<times> string list) list \<Rightarrow> string set" where
  "graphNodes deps = fst ` set deps \<union> (\<Union>p \<in> set deps. set (snd p))"

lemma finite_graphNodes: "finite (graphNodes deps)"
  by (simp add: graphNodes_def)

lemma depsOf_subset_graphNodes: "set (depsOf deps u) \<subseteq> graphNodes deps"
proof (cases "map_of deps u")
  case None
  then show ?thesis by (simp add: depsOf_def)
next
  case (Some ds)
  then have "(u, ds) \<in> set deps" by (rule map_of_SomeD)
  then have "set ds \<subseteq> graphNodes deps" by (force simp: graphNodes_def)
  with Some show ?thesis by (simp add: depsOf_def)
qed

lemma visited_mono_dom:
  "hasCycle_hasCycleDeps_dom (Inl (deps, testID, vr)) \<Longrightarrow>
     fst vr \<subseteq> fst (snd (hasCycle deps testID vr))"
  "hasCycle_hasCycleDeps_dom (Inr (deps, ds, vr)) \<Longrightarrow>
     fst vr \<subseteq> fst (snd (hasCycleDeps deps ds vr))"
proof (induct deps testID vr and deps ds vr rule: hasCycle_hasCycleDeps.pinduct)
  case (1 deps testID visited recStack)
  then show ?case
    by (auto simp: hasCycle.psimps split: prod.splits if_splits)
next
  case (2 deps st)
  then show ?case by (simp add: hasCycleDeps.psimps)
next
  case (3 deps depID rest visited recStack)
  note dom = 3(1)
  show ?case
  proof (cases "depID \<notin> visited")
    case True
    obtain found st' where hc: "hasCycle deps depID (visited, recStack) = (found, st')"
      by (cases "hasCycle deps depID (visited, recStack)")
    have m1: "visited \<subseteq> fst st'" using 3(2)[OF True] hc by simp
    show ?thesis
    proof (cases found)
      case True
      with \<open>depID \<notin> visited\<close> hc m1 dom show ?thesis by (simp add: hasCycleDeps.psimps)
    next
      case False
      have "fst st' \<subseteq> fst (snd (hasCycleDeps deps rest st'))"
        using 3(3)[OF True refl hc[symmetric] False] .
      with \<open>depID \<notin> visited\<close> hc m1 dom False show ?thesis
        by (auto simp: hasCycleDeps.psimps)
    qed
  next
    case False
    then show ?thesis using 3(4) dom by (auto simp: hasCycleDeps.psimps)
  qed
qed

definition hasCycleMeasure ::
  "((string \<times> string list) list \<times> string \<times> string set \<times> string set) +
   ((string \<times> string list) list \<times> string list \<times> string set \<times> string set) \<Rightarrow> nat \<times> nat" where
  "hasCycleMeasure x = (case x of
      Inl (deps, testID, vr) \<Rightarrow> (2 * card (graphNodes deps - fst vr - {testID}) + 1, 0)
    | Inr (deps, ds, vr) \<Rightarrow> (2 * card ((graphNodes deps \<union> set ds) - fst vr), length ds))"

termination hasCycle
proof (relation "inv_image (less_than <*lex*> less_than) hasCycleMeasure", goal_cases)
  case 1
  then show ?case by (intro wf_inv_image wf_lex_prod wf_less_than)
next
  case (2 deps testID visited recStack)
  have "(graphNodes deps \<union> set (depsOf deps testID)) - insert testID visited
        = graphNodes deps - visited - {testID}"
    using depsOf_subset_graphNodes[of deps testID] by auto
  then show ?case by (simp add: hasCycleMeasure_def)
next
  case (3 deps depID rest visited recStack)
  let ?A = "(graphNodes deps \<union> set (depID # rest)) - visited"
  have fin: "finite ?A" by (simp add: finite_graphNodes)
  have "depID \<in> ?A" using 3 by simp
  moreover have "graphNodes deps - visited - {depID} \<subseteq> ?A - {depID}" by auto
  ultimately have "card (graphNodes deps - visited - {depID}) < card ?A"
    using fin by (meson card_Diff1_less card_mono finite_Diff le_less_trans)
  then show ?case by (simp add: hasCycleMeasure_def)
next
  case (4 deps depID rest visited recStack x xa y)
  have "visited \<subseteq> fst y"
    using 4 visited_mono_dom(1)[of deps depID "(visited, recStack)"]
    by (metis fst_conv snd_conv)
  then have "(graphNodes deps \<union> set rest) - fst y
      \<subseteq> (graphNodes deps \<union> set (depID # rest)) - visited" by auto
  then have "card ((graphNodes deps \<union> set rest) - fst y)
      \<le> card ((graphNodes deps \<union> set (depID # rest)) - visited)"
    by (intro card_mono) (simp_all add: finite_graphNodes)
  then show ?case by (auto simp: hasCycleMeasure_def)
next
  case (5 deps depID rest visited recStack)
  have "(graphNodes deps \<union> set rest) - visited
      \<subseteq> (graphNodes deps \<union> set (depID # rest)) - visited" by auto
  then have "card ((graphNodes deps \<union> set rest) - visited)
      \<le> card ((graphNodes deps \<union> set (depID # rest)) - visited)"
    by (intro card_mono) (simp_all add: finite_graphNodes)
  then show ?case by (auto simp: hasCycleMeasure_def)
qed

text \<open>
  \<open>detectCircularDependencies\<close> (lines 637-650): the loop over \<open>ep.tests\<close>, started
  with both maps empty. It returns the error, or nil as \<open>None\<close>.
\<close>

fun detectLoop ::
  "(string \<times> string list) list \<Rightarrow> 'w Test list \<Rightarrow> string set \<times> string set \<Rightarrow> error option"
where
  "detectLoop deps [] st = None"
| "detectLoop deps (test # rest) (visited, recStack) =
     (if ID test \<notin> visited then
        (let (found, st') = hasCycle deps (ID test) (visited, recStack)
         in if found then Some (CircularDependencyInvolving (ID test))
            else detectLoop deps rest st')
      else detectLoop deps rest (visited, recStack))"

definition detectCircularDependencies :: "'w ExecutionPlan \<Rightarrow> error option" where
  "detectCircularDependencies ep = detectLoop (dependencies ep) (planTests ep) ({}, {})"

text \<open>\<open>NewExecutionPlan\<close> (lines 517-536).\<close>

definition buildDependencies :: "'w Test list \<Rightarrow> (string \<times> string list) list" where
  "buildDependencies tests =
     fold (\<lambda>test deps. AList.update (ID test) (Dependencies test) deps) tests []"

definition NewExecutionPlan :: "'w Test list \<Rightarrow> error + 'w ExecutionPlan" where
  "NewExecutionPlan tests =
     (let plan = \<lparr> planTests = tests, dependencies = buildDependencies tests,
                      completed = {}, failed = {} \<rparr>
      in case detectCircularDependencies plan of
           Some err \<Rightarrow> Inl err
         | None \<Rightarrow> Inr plan)"

section \<open>ExecutionPlan: ordering and readiness\<close>

text \<open>
  \<open>GetExecutionOrder\<close> (lines 539-593). \<open>inDegree\<close> is a \<open>map[string]int\<close>; a key
  that is absent reads as 0. The \<open>testMap\<close> the source fills is never read and is left
  out.
\<close>

definition inDegreeOf :: "(string \<rightharpoonup> int) \<Rightarrow> string \<Rightarrow> int" where
  "inDegreeOf inDegree k = (case inDegree k of None \<Rightarrow> 0 | Some n \<Rightarrow> n)"

definition buildInDegree :: "'w Test list \<Rightarrow> (string \<rightharpoonup> int)" where
  "buildInDegree tests =
     fold (\<lambda>test inDegree.
             fold (\<lambda>dep m. m(dep \<mapsto> inDegreeOf m dep + 1)) (Dependencies test)
               (if inDegree (ID test) = None then inDegree(ID test \<mapsto> 0) else inDegree))
          tests Map.empty"

text \<open>The inner loop over \<open>test.Dependencies\<close> at lines 577-584.\<close>

fun resolveDeps ::
  "'w Test \<Rightarrow> string \<Rightarrow> string list \<Rightarrow> (string \<rightharpoonup> int) \<times> 'w Test list
     \<Rightarrow> (string \<rightharpoonup> int) \<times> 'w Test list"
where
  "resolveDeps test currentID [] st = st"
| "resolveDeps test currentID (dep # rest) (inDegree, queue) =
     (if dep = currentID then
        (let inDegree' = inDegree(ID test \<mapsto> inDegreeOf inDegree (ID test) - 1)
         in resolveDeps test currentID rest
              (inDegree',
               if inDegreeOf inDegree' (ID test) = 0 then queue @ [test] else queue))
      else resolveDeps test currentID rest (inDegree, queue))"

text \<open>The loop over \<open>ep.tests\<close> at lines 576-585.\<close>

fun resolveTests ::
  "string \<Rightarrow> 'w Test list \<Rightarrow> (string \<rightharpoonup> int) \<times> 'w Test list
     \<Rightarrow> (string \<rightharpoonup> int) \<times> 'w Test list"
where
  "resolveTests currentID [] st = st"
| "resolveTests currentID (test # rest) st =
     resolveTests currentID rest (resolveDeps test currentID (Dependencies test) st)"

text \<open>The \<open>for len(queue) > 0\<close> loop at lines 570-586.\<close>

function kahnLoop ::
  "'w Test list \<Rightarrow> 'w Test list \<Rightarrow> (string \<rightharpoonup> int) \<Rightarrow> 'w Test list \<Rightarrow> 'w Test list"
where
  "kahnLoop tests [] inDegree ordered = ordered"
| "kahnLoop tests (current # queue) inDegree ordered =
     (let (inDegree', queue') = resolveTests (ID current) tests (inDegree, queue)
      in kahnLoop tests queue' inDegree' (ordered @ [current]))"
  by pat_completeness auto

text \<open>
  The loop ends: an entry is appended to the queue only when the counter of its ID
  drops from 1 to 0, which removes that ID from the positive counters for good.
\<close>

definition positiveKeys :: "'w Test list \<Rightarrow> (string \<rightharpoonup> int) \<Rightarrow> string set" where
  "positiveKeys tests inDegree = {k \<in> ID ` set tests. 0 < inDegreeOf inDegree k}"

lemma finite_positiveKeys: "finite (positiveKeys tests inDegree)"
  by (simp add: positiveKeys_def)

lemma resolveDeps_measure:
  assumes "test \<in> set tests"
  shows "length (snd (resolveDeps test cur ds (m, q)))
           + card (positiveKeys tests (fst (resolveDeps test cur ds (m, q))))
         \<le> length q + card (positiveKeys tests m)"
proof (induction ds arbitrary: m q)
  case Nil
  then show ?case by simp
next
  case (Cons dep ds)
  show ?case
  proof (cases "dep = cur")
    case False
    then show ?thesis using Cons.IH[of m q] by simp
  next
    case True
    define m' where "m' = m(ID test \<mapsto> inDegreeOf m (ID test) - 1)"
    have val: "inDegreeOf m' (ID test) = inDegreeOf m (ID test) - 1"
      by (simp add: m'_def inDegreeOf_def)
    have other: "\<And>k. k \<noteq> ID test \<Longrightarrow> inDegreeOf m' k = inDegreeOf m k"
      by (simp add: m'_def inDegreeOf_def)
    show ?thesis
    proof (cases "inDegreeOf m' (ID test) = 0")
      case zero: True
      have "\<And>k. k \<in> positiveKeys tests m' \<longleftrightarrow> k \<in> positiveKeys tests m - {ID test}"
      proof -
        fix k show "k \<in> positiveKeys tests m' \<longleftrightarrow> k \<in> positiveKeys tests m - {ID test}"
          using zero other[of k] by (cases "k = ID test") (simp_all add: positiveKeys_def)
      qed
      then have "positiveKeys tests m' = positiveKeys tests m - {ID test}"
        by blast
      moreover have "ID test \<in> positiveKeys tests m"
        using zero val assms by (simp add: positiveKeys_def)
      ultimately have c: "card (positiveKeys tests m') + 1 = card (positiveKeys tests m)"
        using finite_positiveKeys[of tests m] card_Suc_Diff1 by fastforce
      have step: "resolveDeps test cur (dep # ds) (m, q) = resolveDeps test cur ds (m', q @ [test])"
        using True zero by (simp add: m'_def)
      have "length (snd (resolveDeps test cur ds (m', q @ [test])))
           + card (positiveKeys tests (fst (resolveDeps test cur ds (m', q @ [test]))))
         \<le> length (q @ [test]) + card (positiveKeys tests m')"
        by (rule Cons.IH)
      with c show ?thesis unfolding step by simp
    next
      case nz: False
      have "positiveKeys tests m' \<subseteq> positiveKeys tests m"
      proof
        fix k assume k: "k \<in> positiveKeys tests m'"
        show "k \<in> positiveKeys tests m"
        proof (cases "k = ID test")
          case True
          with k val show ?thesis by (simp add: positiveKeys_def)
        next
          case False
          with k other show ?thesis by (simp add: positiveKeys_def)
        qed
      qed
      then have c: "card (positiveKeys tests m') \<le> card (positiveKeys tests m)"
        by (rule card_mono[OF finite_positiveKeys])
      have step: "resolveDeps test cur (dep # ds) (m, q) = resolveDeps test cur ds (m', q)"
        using True nz by (simp add: m'_def)
      have "length (snd (resolveDeps test cur ds (m', q)))
           + card (positiveKeys tests (fst (resolveDeps test cur ds (m', q))))
         \<le> length q + card (positiveKeys tests m')"
        by (rule Cons.IH)
      with c show ?thesis unfolding step by simp
    qed
  qed
qed

lemma resolveTests_measure:
  "set ts \<subseteq> set tests \<Longrightarrow>
   length (snd (resolveTests cur ts st)) + card (positiveKeys tests (fst (resolveTests cur ts st)))
     \<le> length (snd st) + card (positiveKeys tests (fst st))"
proof (induction ts arbitrary: st)
  case Nil
  then show ?case by simp
next
  case (Cons t ts)
  obtain m q where st: "st = (m, q)" by (cases st)
  have "length (snd (resolveDeps t cur (Dependencies t) st))
           + card (positiveKeys tests (fst (resolveDeps t cur (Dependencies t) st)))
         \<le> length (snd st) + card (positiveKeys tests (fst st))"
    unfolding st using resolveDeps_measure[of t tests] Cons.prems by simp
  moreover have "length (snd (resolveTests cur ts (resolveDeps t cur (Dependencies t) st)))
      + card (positiveKeys tests (fst (resolveTests cur ts (resolveDeps t cur (Dependencies t) st))))
     \<le> length (snd (resolveDeps t cur (Dependencies t) st))
           + card (positiveKeys tests (fst (resolveDeps t cur (Dependencies t) st)))"
    using Cons.IH Cons.prems by simp
  ultimately show ?case by simp
qed

termination kahnLoop
proof (relation "measure (\<lambda>(tests, queue, inDegree, ordered).
          length queue + card (positiveKeys tests inDegree))", goal_cases)
  case 1
  then show ?case by simp
next
  case (2 tests current queue inDegree ordered x xa y)
  then show ?case
    using resolveTests_measure[of tests tests "ID current" "(inDegree, queue)"]
    by (metis (no_types, lifting) add_Suc case_prod_conv fst_conv in_measure le_imp_less_Suc length_Cons order_refl snd_conv)
qed

definition GetExecutionOrder :: "'w ExecutionPlan \<Rightarrow> error + 'w Test list" where
  "GetExecutionOrder ep =
     (let inDegree = buildInDegree (planTests ep);
          queue = filter (\<lambda>test. length (Dependencies test) = 0) (planTests ep);
          ordered = kahnLoop (planTests ep) queue inDegree []
      in if length ordered \<noteq> length (planTests ep) then Inl CircularDependencyDetected
         else Inr ordered)"

text \<open>\<open>GetReadyTests\<close> (lines 596-620), \<open>MarkCompleted\<close> and \<open>MarkFailed\<close>.\<close>

definition allDepsSatisfied :: "'w ExecutionPlan \<Rightarrow> 'w Test \<Rightarrow> bool" where
  "allDepsSatisfied ep test =
     list_all (\<lambda>depID. \<not> (depID \<notin> completed ep \<or> depID \<in> failed ep)) (Dependencies test)"

definition GetReadyTests :: "'w ExecutionPlan \<Rightarrow> 'w Test list" where
  "GetReadyTests ep =
     filter (\<lambda>test. \<not> (ID test \<in> completed ep \<or> ID test \<in> failed ep)
                    \<and> allDepsSatisfied ep test) (planTests ep)"

definition MarkCompleted :: "string \<Rightarrow> 'w ExecutionPlan \<Rightarrow> 'w ExecutionPlan" where
  "MarkCompleted testID ep = ep\<lparr>completed := insert testID (completed ep)\<rparr>"

definition MarkFailed :: "string \<Rightarrow> 'w ExecutionPlan \<Rightarrow> 'w ExecutionPlan" where
  "MarkFailed testID ep = ep\<lparr>failed := insert testID (failed ep)\<rparr>"

section \<open>ExecutionEngine\<close>

text \<open>
  The engine's fields as in the source. \<open>workChan\<close> is the buffered channel (its
  queue and whether it has been closed); \<open>ctxDone\<close> says whether \<open>ee.ctx\<close> has been
  cancelled or has passed its deadline. The mutexes are not modelled; the wait group is
  the worker count of the parallel run below.
\<close>

record 'w ExecutionEngine =
  tests :: "'w Test list"
  config :: RunConfig
  plan :: "'w ExecutionPlan"
  workChan :: "'w Test list"
  workChanClosed :: bool
  ctx :: Context
  ctxDone :: bool
  totalTests :: "32 word"
  passedTests :: "32 word"
  failedTests :: "32 word"
  skippedTests :: "32 word"
  retryAttempts :: "32 word"
  results :: "ExecutionResult list"
  completedTests :: "string set"
  failedTestsList :: "string set"

text \<open>
  What lies outside the engine: the world the hooks act on, and a log of the hook calls
  the engine makes (an instrumentation of the call sites, so that "is invoked" and
  "number of attempts" can be stated).
\<close>

datatype event =
    LifecycleStarted string
  | SetupCalled string
  | ExecuteCalled string
  | TeardownCalled string

record 'w env =
  world :: 'w
  calls :: "event list"

definition invokeHook :: "event \<Rightarrow> 'w hook \<Rightarrow> Context \<Rightarrow> 'w env \<Rightarrow> error option \<times> 'w env" where
  "invokeHook ev h c e =
     (let (err, w') = h c (world e) in (err, \<lparr> world = w', calls = calls e @ [ev] \<rparr>))"

datatype 'a outcome = Returned 'a | Panicked error

definition DefaultRunConfig :: RunConfig where
  "DefaultRunConfig =
     \<lparr> Mode = ExecutionModeParallel, MaxWorkers = 10,
       GlobalTimeout = 30 * 60 * 1000000000, TestTimeout = 5 * 60 * 1000000000,
       EnableRetry = True, IsolateTests = True \<rparr>"

text \<open>Lines 146-152: the two writes to \<open>config.MaxWorkers\<close>, through the pointer.\<close>

definition capMaxWorkers :: "RunConfig \<Rightarrow> RunConfig" where
  "capMaxWorkers c =
     (let c1 = (if MaxWorkers c <s 1 then c\<lparr>MaxWorkers := 1\<rparr> else c)
      in if 100 <s MaxWorkers c1 then c1\<lparr>MaxWorkers := 100\<rparr> else c1)"

text \<open>
  \<open>NewExecutionEngine\<close> (lines 138-176). \<open>config\<close> is a pointer: \<open>None\<close> is nil,
  \<open>Some c\<close> points to the caller's struct holding \<open>c\<close>. The first component of the
  result is the caller's struct after the call, the second what the function returns.
  The engine keeps the pointer, so its \<open>config\<close> field is that same struct.
\<close>

definition NewExecutionEngine ::
  "'w Test list \<Rightarrow> RunConfig option \<Rightarrow> RunConfig option \<times> (error + 'w ExecutionEngine)"
where
  "NewExecutionEngine ts configPtr =
     (if length ts = 0 then (configPtr, Inl NoTestsProvided)
      else
        let cfg = capMaxWorkers (case configPtr of None \<Rightarrow> DefaultRunConfig | Some c \<Rightarrow> c);
            callerConfig = map_option (\<lambda>_. cfg) configPtr
        in case NewExecutionPlan ts of
             Inl err \<Rightarrow> (callerConfig, Inl (PlanCreationFailed err))
           | Inr p \<Rightarrow>
               (callerConfig,
                Inr \<lparr> tests = ts, config = cfg, plan = p,
                      workChan = [], workChanClosed = False,
                      ctx = WithTimeout Background (GlobalTimeout cfg), ctxDone = False,
                      totalTests = word_of_nat (length ts),
                      passedTests = 0, failedTests = 0, skippedTests = 0, retryAttempts = 0,
                      results = [], completedTests = {}, failedTestsList = {} \<rparr>))"

text \<open>\<open>runTestLifecycle\<close> (lines 385-420). The deferred teardown runs on every return
  that follows its registration, on the background context; its error is dropped.\<close>

definition runDeferredTeardown :: "'w Test \<Rightarrow> 'w env \<Rightarrow> 'w env" where
  "runDeferredTeardown test e =
     (case Teardown test of
        None \<Rightarrow> e
      | Some td \<Rightarrow> snd (invokeHook (TeardownCalled (ID test)) td Background e))"

definition testContext :: "'w ExecutionEngine \<Rightarrow> Context \<Rightarrow> 'w Test \<Rightarrow> Context" where
  "testContext ee c test =
     (let timeout = (if 0 <s Timeout test then Timeout test else TestTimeout (config ee))
      in WithTimeout c timeout)"

definition runTestLifecycle ::
  "'w ExecutionEngine \<Rightarrow> Context \<Rightarrow> 'w Test \<Rightarrow> 'w env \<Rightarrow> error option \<times> 'w env"
where
  "runTestLifecycle ee c test e0 =
     (let e = e0\<lparr>calls := calls e0 @ [LifecycleStarted (ID test)]\<rparr>;
          testCtx = testContext ee c test;
          (setupErr, e1) =
             (case Setup test of
                None \<Rightarrow> (None, e)
              | Some su \<Rightarrow> invokeHook (SetupCalled (ID test)) su testCtx e)
      in case setupErr of
           Some err \<Rightarrow> (Some (SetupFailed err), e1)
         | None \<Rightarrow>
             (case Execute test of
                None \<Rightarrow> (Some NoExecuteFunction, runDeferredTeardown test e1)
              | Some ex \<Rightarrow>
                  (let (execErr, e2) = invokeHook (ExecuteCalled (ID test)) ex testCtx e1
                   in (map_option ExecuteFailed execErr, runDeferredTeardown test e2))))"

text \<open>
  \<open>executeTest\<close> (lines 342-382). \<open>executeAttempts\<close> is its \<open>for attempt\<close> loop; the
  counter stays below \<open>maxAttempts\<close> and so never wraps. The back-off sleep is real
  time and is left out. After the loop \<open>lastErr.Error()\<close> is called: with no attempt
  made \<open>lastErr\<close> is nil and the call panics.
\<close>

function executeAttempts ::
  "'w ExecutionEngine \<Rightarrow> Context \<Rightarrow> 'w Test \<Rightarrow> int \<Rightarrow> int \<Rightarrow> ExecutionResult \<Rightarrow> error option
     \<Rightarrow> 'w env \<Rightarrow> ExecutionResult outcome \<times> 'w ExecutionEngine \<times> 'w env"
where
  "executeAttempts ee c test maxAttempts attempt result lastErr e =
     (if attempt < maxAttempts then
        (let result1 = (if 0 < attempt then result\<lparr>RetryCount := attempt\<rparr> else result);
             ee1 = (if 0 < attempt then ee\<lparr>retryAttempts := retryAttempts ee + 1\<rparr> else ee);
             (err, e1) = runTestLifecycle ee1 c test e
         in case err of
              None \<Rightarrow> (Returned (result1\<lparr>Status := TestStatusPassed\<rparr>), ee1, e1)
            | Some er \<Rightarrow>
                executeAttempts ee1 c test maxAttempts (attempt + 1) result1 (Some er) e1)
      else
        (case lastErr of
           None \<Rightarrow> (Panicked NilDereference, ee, e)
         | Some er \<Rightarrow>
             (Returned (result\<lparr>Status := TestStatusFailed, Error := Some er\<rparr>), ee, e)))"
  by pat_completeness auto
termination
  by (relation "measure (\<lambda>(ee, c, test, maxAttempts, attempt, result, lastErr, e).
                  nat (maxAttempts - attempt))") auto

definition maxAttemptsOf :: "'w ExecutionEngine \<Rightarrow> 'w Test \<Rightarrow> 64 word" where
  "maxAttemptsOf ee test =
     (if EnableRetry (config ee) \<and> 0 <s MaxRetries test then MaxRetries test + 1 else 1)"

definition executeTest ::
  "'w ExecutionEngine \<Rightarrow> Context \<Rightarrow> 'w Test \<Rightarrow> 'w env
     \<Rightarrow> ExecutionResult outcome \<times> 'w ExecutionEngine \<times> 'w env"
where
  "executeTest ee c test e =
     executeAttempts ee c test (sint (maxAttemptsOf ee test)) 0
       \<lparr> TestID = ID test, Status = [], Error = None, RetryCount = 0, SkipReason = [] \<rparr>
       None e"

text \<open>\<open>shouldRunTest\<close> (lines 423-436).\<close>

fun shouldRunLoop :: "'w ExecutionEngine \<Rightarrow> string list \<Rightarrow> bool" where
  "shouldRunLoop ee [] = True"
| "shouldRunLoop ee (depID # rest) =
     (if depID \<in> failedTestsList ee then False
      else if depID \<notin> completedTests ee then False
      else shouldRunLoop ee rest)"

definition shouldRunTest :: "'w ExecutionEngine \<Rightarrow> 'w Test \<Rightarrow> bool" where
  "shouldRunTest ee test = shouldRunLoop ee (Dependencies test)"

text \<open>\<open>recordResult\<close>, \<open>skipTest\<close>, \<open>markTestCompleted\<close>, \<open>markTestFailed\<close>,
  \<open>GetMetrics\<close> (lines 439-508).\<close>

definition recordResult :: "ExecutionResult \<Rightarrow> 'w ExecutionEngine \<Rightarrow> 'w ExecutionEngine" where
  "recordResult result ee =
     (let ee1 = ee\<lparr>results := results ee @ [result]\<rparr>
      in if Status result = TestStatusPassed then ee1\<lparr>passedTests := passedTests ee1 + 1\<rparr>
         else if Status result = TestStatusFailed then ee1\<lparr>failedTests := failedTests ee1 + 1\<rparr>
         else if Status result = TestStatusSkipped then ee1\<lparr>skippedTests := skippedTests ee1 + 1\<rparr>
         else ee1)"

definition skipTest :: "'w Test \<Rightarrow> string \<Rightarrow> 'w ExecutionEngine \<Rightarrow> 'w ExecutionEngine" where
  "skipTest test reason ee =
     recordResult \<lparr> TestID = ID test, Status = TestStatusSkipped, Error = None,
                    RetryCount = 0, SkipReason = reason \<rparr> ee"

definition markTestCompleted :: "string \<Rightarrow> 'w ExecutionEngine \<Rightarrow> 'w ExecutionEngine" where
  "markTestCompleted testID ee = ee\<lparr>completedTests := insert testID (completedTests ee)\<rparr>"

definition markTestFailed :: "string \<Rightarrow> 'w ExecutionEngine \<Rightarrow> 'w ExecutionEngine" where
  "markTestFailed testID ee = ee\<lparr>failedTestsList := insert testID (failedTestsList ee)\<rparr>"

definition GetMetrics :: "'w ExecutionEngine \<Rightarrow> TestMetrics" where
  "GetMetrics ee =
     \<lparr> Total = totalTests ee, Passed = passedTests ee, Failed = failedTests ee,
       Skipped = skippedTests ee, Retries = retryAttempts ee \<rparr>"

section \<open>The four execution modes\<close>

text \<open>\<open>runSequential\<close> (lines 197-220); \<open>sequentialLoop\<close> is its \<open>for\<close> loop. A call
  returns the result slice with the error (nil slice as the empty list), or panics.\<close>

fun sequentialLoop ::
  "'w Test list \<Rightarrow> 'w ExecutionEngine \<Rightarrow> 'w env \<Rightarrow> unit outcome \<times> 'w ExecutionEngine \<times> 'w env"
where
  "sequentialLoop [] ee e = (Returned (), ee, e)"
| "sequentialLoop (test # rest) ee e =
     (if \<not> shouldRunTest ee test then
        sequentialLoop rest (skipTest test ''dependencies failed'' ee) e
      else
        (case executeTest ee (ctx ee) test e of
           (Panicked err, ee1, e1) \<Rightarrow> (Panicked err, ee1, e1)
         | (Returned result, ee1, e1) \<Rightarrow>
             (let ee2 = recordResult result ee1;
                  ee3 = (if Status result = TestStatusFailed then markTestFailed (ID test) ee2
                         else if Status result = TestStatusPassed
                              then markTestCompleted (ID test) ee2
                         else ee2)
              in sequentialLoop rest ee3 e1)))"

definition runSequential ::
  "'w ExecutionEngine \<Rightarrow> 'w env
     \<Rightarrow> (ExecutionResult list \<times> error option) outcome \<times> 'w ExecutionEngine \<times> 'w env"
where
  "runSequential ee e =
     (case GetExecutionOrder (plan ee) of
        Inl err \<Rightarrow> (Returned ([], Some err), ee, e)
      | Inr ordered \<Rightarrow>
          (case sequentialLoop ordered ee e of
             (Panicked err, ee', e') \<Rightarrow> (Panicked err, ee', e')
           | (Returned _, ee', e') \<Rightarrow> (Returned (results ee', None), ee', e')))"

text \<open>
  \<open>runFailFast\<close> (lines 243-273). At the top of each iteration the loop polls
  \<open>ee.ctx.Done()\<close>; the deadline may have passed at any such point, so the poll is a
  choice of the environment: rule \<open>ff_ctx\<close> is the branch that finds the context done.
\<close>

inductive failFastLoop ::
  "'w Test list \<Rightarrow> 'w ExecutionEngine \<Rightarrow> 'w env
     \<Rightarrow> (ExecutionResult list \<times> error option) outcome \<Rightarrow> 'w ExecutionEngine \<Rightarrow> 'w env \<Rightarrow> bool"
where
  ff_end: "failFastLoop [] ee e (Returned (results ee, None)) ee e"
| ff_ctx: "failFastLoop (test # rest) ee e
             (Returned (results ee, Some ContextError)) (ee\<lparr>ctxDone := True\<rparr>) e"
| ff_skip: "\<not> ctxDone ee \<Longrightarrow> \<not> shouldRunTest ee test \<Longrightarrow>
            failFastLoop rest (skipTest test ''dependencies failed'' ee) e out ee' e' \<Longrightarrow>
            failFastLoop (test # rest) ee e out ee' e'"
| ff_panic: "\<not> ctxDone ee \<Longrightarrow> shouldRunTest ee test \<Longrightarrow>
             executeTest ee (ctx ee) test e = (Panicked err, ee1, e1) \<Longrightarrow>
             failFastLoop (test # rest) ee e (Panicked err) ee1 e1"
| ff_fail: "\<not> ctxDone ee \<Longrightarrow> shouldRunTest ee test \<Longrightarrow>
            executeTest ee (ctx ee) test e = (Returned result, ee1, e1) \<Longrightarrow>
            Status result = TestStatusFailed \<Longrightarrow>
            ee2 = markTestFailed (ID test) (recordResult result ee1) \<Longrightarrow>
            failFastLoop (test # rest) ee e
              (Returned (results ee2, Some (TestFailedError (ID test)))) ee2 e1"
| ff_pass: "\<not> ctxDone ee \<Longrightarrow> shouldRunTest ee test \<Longrightarrow>
            executeTest ee (ctx ee) test e = (Returned result, ee1, e1) \<Longrightarrow>
            Status result \<noteq> TestStatusFailed \<Longrightarrow>
            failFastLoop rest (markTestCompleted (ID test) (recordResult result ee1)) e1
              out ee' e' \<Longrightarrow>
            failFastLoop (test # rest) ee e out ee' e'"

inductive runFailFast ::
  "'w ExecutionEngine \<Rightarrow> 'w env
     \<Rightarrow> (ExecutionResult list \<times> error option) outcome \<Rightarrow> 'w ExecutionEngine \<Rightarrow> 'w env \<Rightarrow> bool"
where
  failfast_order_error:
    "GetExecutionOrder (plan ee) = Inl err \<Longrightarrow>
     runFailFast ee e (Returned ([], Some err)) ee e"
| failfast_loop:
    "GetExecutionOrder (plan ee) = Inr ordered \<Longrightarrow>
     failFastLoop ordered ee e out ee' e' \<Longrightarrow>
     runFailFast ee e out ee' e'"

text \<open>
  \<open>runParallel\<close> (lines 223-240) with \<open>worker\<close> (281-308) and \<open>dispatchTests\<close>
  (311-339). The goroutines are interleaved by a step relation on the state below: the
  engine, the environment, the dispatcher's \<open>dispatched\<close> map and whether it has
  returned (after which the channel is closed), the wait-group count of workers still
  running, and a panic raised in a worker. One step is one iteration of the dispatcher
  loop or of a worker's \<open>for test := range ee.workChan\<close> loop, or the context becoming
  done (deadline passed). Taking whole iterations as steps gives some of the
  interleavings the program has, not all: enough to exhibit runs.
\<close>

record 'w ParState =
  eng :: "'w ExecutionEngine"
  envir :: "'w env"
  dispatched :: "string set"
  dispatcherDone :: bool
  activeWorkers :: nat
  panicked :: "error option"

text \<open>Lines 332-337: the sends of one dispatcher iteration.\<close>

fun dispatchReady :: "'w Test list \<Rightarrow> string set \<times> 'w Test list \<Rightarrow> string set \<times> 'w Test list" where
  "dispatchReady [] st = st"
| "dispatchReady (test # rest) (disp, chan) =
     (if ID test \<notin> disp then dispatchReady rest (insert (ID test) disp, chan @ [test])
      else dispatchReady rest (disp, chan))"

text \<open>Lines 298-306: what a worker does with the result of \<open>executeTest\<close>.\<close>

definition workerRecord :: "'w Test \<Rightarrow> ExecutionResult \<Rightarrow> 'w ExecutionEngine \<Rightarrow> 'w ExecutionEngine" where
  "workerRecord test result ee =
     (let ee1 = recordResult result ee
      in if Status result = TestStatusPassed then
           (let ee2 = markTestCompleted (ID test) ee1
            in ee2\<lparr>plan := MarkCompleted (ID test) (plan ee2)\<rparr>)
         else if Status result = TestStatusFailed then
           (let ee2 = markTestFailed (ID test) ee1
            in ee2\<lparr>plan := MarkFailed (ID test) (plan ee2)\<rparr>)
         else ee1)"

inductive parStep :: "'w ParState \<Rightarrow> 'w ParState \<Rightarrow> bool" where
  deadline:
    "panicked s = None \<Longrightarrow> \<not> ctxDone (eng s) \<Longrightarrow>
     parStep s (s\<lparr>eng := (eng s)\<lparr>ctxDone := True\<rparr>\<rparr>)"
| dispatcher_cancelled:
    "panicked s = None \<Longrightarrow> \<not> dispatcherDone s \<Longrightarrow> ctxDone (eng s) \<Longrightarrow>
     parStep s (s\<lparr>dispatcherDone := True, eng := (eng s)\<lparr>workChanClosed := True\<rparr>\<rparr>)"
| dispatcher_finished:
    "panicked s = None \<Longrightarrow> \<not> dispatcherDone s \<Longrightarrow> \<not> ctxDone (eng s) \<Longrightarrow>
     GetReadyTests (plan (eng s)) = [] \<Longrightarrow>
     card (dispatched s) = length (tests (eng s)) \<Longrightarrow>
     parStep s (s\<lparr>dispatcherDone := True, eng := (eng s)\<lparr>workChanClosed := True\<rparr>\<rparr>)"
| dispatcher_sleep:
    "panicked s = None \<Longrightarrow> \<not> dispatcherDone s \<Longrightarrow> \<not> ctxDone (eng s) \<Longrightarrow>
     GetReadyTests (plan (eng s)) = [] \<Longrightarrow>
     card (dispatched s) \<noteq> length (tests (eng s)) \<Longrightarrow>
     parStep s s"
| dispatcher_send:
    "panicked s = None \<Longrightarrow> \<not> dispatcherDone s \<Longrightarrow> \<not> ctxDone (eng s) \<Longrightarrow>
     GetReadyTests (plan (eng s)) \<noteq> [] \<Longrightarrow>
     dispatchReady (GetReadyTests (plan (eng s))) (dispatched s, workChan (eng s))
       = (disp', chan') \<Longrightarrow>
     parStep s (s\<lparr>dispatched := disp', eng := (eng s)\<lparr>workChan := chan'\<rparr>\<rparr>)"
| worker_cancelled:
    "panicked s = None \<Longrightarrow> 0 < activeWorkers s \<Longrightarrow> workChan (eng s) = test # rest \<Longrightarrow>
     ctxDone (eng s) \<Longrightarrow>
     parStep s (s\<lparr>activeWorkers := activeWorkers s - 1,
                   eng := skipTest test ''context canceled'' ((eng s)\<lparr>workChan := rest\<rparr>)\<rparr>)"
| worker_skip:
    "panicked s = None \<Longrightarrow> 0 < activeWorkers s \<Longrightarrow> workChan (eng s) = test # rest \<Longrightarrow>
     \<not> ctxDone (eng s) \<Longrightarrow> \<not> shouldRunTest (eng s) test \<Longrightarrow>
     parStep s (s\<lparr>eng := skipTest test ''dependencies not met'' ((eng s)\<lparr>workChan := rest\<rparr>)\<rparr>)"
| worker_execute:
    "panicked s = None \<Longrightarrow> 0 < activeWorkers s \<Longrightarrow> workChan (eng s) = test # rest \<Longrightarrow>
     \<not> ctxDone (eng s) \<Longrightarrow> shouldRunTest (eng s) test \<Longrightarrow>
     executeTest ((eng s)\<lparr>workChan := rest\<rparr>) (ctx (eng s)) test (envir s)
       = (Returned result, ee1, e1) \<Longrightarrow>
     parStep s (s\<lparr>eng := workerRecord test result ee1, envir := e1\<rparr>)"
| worker_panic:
    "panicked s = None \<Longrightarrow> 0 < activeWorkers s \<Longrightarrow> workChan (eng s) = test # rest \<Longrightarrow>
     \<not> ctxDone (eng s) \<Longrightarrow> shouldRunTest (eng s) test \<Longrightarrow>
     executeTest ((eng s)\<lparr>workChan := rest\<rparr>) (ctx (eng s)) test (envir s)
       = (Panicked err, ee1, e1) \<Longrightarrow>
     parStep s (s\<lparr>eng := ee1, envir := e1, panicked := Some err\<rparr>)"
| worker_exit:
    "panicked s = None \<Longrightarrow> 0 < activeWorkers s \<Longrightarrow> workChan (eng s) = [] \<Longrightarrow>
     workChanClosed (eng s) \<Longrightarrow>
     parStep s (s\<lparr>activeWorkers := activeWorkers s - 1\<rparr>)"

definition parInit :: "'w ExecutionEngine \<Rightarrow> 'w env \<Rightarrow> 'w ParState" where
  "parInit ee e =
     \<lparr> eng = ee, envir = e, dispatched = {}, dispatcherDone = False,
       activeWorkers = nat (sint (MaxWorkers (config ee))), panicked = None \<rparr>"

text \<open>\<open>runParallel\<close> returns once \<open>ee.wg.Wait()\<close> does, that is when no worker is
  left running; a panic in a worker ends the program.\<close>

inductive runParallel ::
  "'w ExecutionEngine \<Rightarrow> 'w env
     \<Rightarrow> (ExecutionResult list \<times> error option) outcome \<Rightarrow> 'w ExecutionEngine \<Rightarrow> 'w env \<Rightarrow> bool"
where
  parallel_return:
    "rtranclp parStep (parInit ee e) s \<Longrightarrow> panicked s = None \<Longrightarrow> activeWorkers s = 0 \<Longrightarrow>
     runParallel ee e (Returned (results (eng s), None)) (eng s) (envir s)"
| parallel_panic:
    "rtranclp parStep (parInit ee e) s \<Longrightarrow> panicked s = Some err \<Longrightarrow>
     runParallel ee e (Panicked err) (eng s) (envir s)"

text \<open>\<open>Run\<close> (lines 179-194). The deferred \<open>ee.cancel()\<close> leaves the context done.\<close>

definition cancel :: "'w ExecutionEngine \<Rightarrow> 'w ExecutionEngine" where
  "cancel ee = ee\<lparr>ctxDone := True\<rparr>"

inductive Run ::
  "'w ExecutionEngine \<Rightarrow> 'w env
     \<Rightarrow> (ExecutionResult list \<times> error option) outcome \<Rightarrow> 'w ExecutionEngine \<Rightarrow> 'w env \<Rightarrow> bool"
where
  Run_sequential:
    "Mode (config ee) = ExecutionModeSequential \<Longrightarrow> runSequential ee e = (out, ee', e') \<Longrightarrow>
     Run ee e out (cancel ee') e'"
| Run_parallel:
    "Mode (config ee) = ExecutionModeParallel \<Longrightarrow> runParallel ee e out ee' e' \<Longrightarrow>
     Run ee e out (cancel ee') e'"
| Run_failfast:
    "Mode (config ee) = ExecutionModeFailFast \<Longrightarrow> runFailFast ee e out ee' e' \<Longrightarrow>
     Run ee e out (cancel ee') e'"
| Run_comprehensive:
    "Mode (config ee) = ExecutionModeComprehensive \<Longrightarrow> runParallel ee e out ee' e' \<Longrightarrow>
     Run ee e out (cancel ee') e'"
| Run_unknown:
    "Mode (config ee) \<noteq> ExecutionModeSequential \<Longrightarrow>
     Mode (config ee) \<noteq> ExecutionModeParallel \<Longrightarrow>
     Mode (config ee) \<noteq> ExecutionModeFailFast \<Longrightarrow>
     Mode (config ee) \<noteq> ExecutionModeComprehensive \<Longrightarrow>
     Run ee e (Returned ([], Some (UnknownExecutionMode (Mode (config ee))))) (cancel ee) e"

section \<open>Example inputs\<close>

text \<open>Small task sets on which the functions above are evaluated.\<close>

definition basicTest :: "string \<Rightarrow> string list \<Rightarrow> 'w hook \<Rightarrow> 'w Test" where
  "basicTest testID deps ex =
     \<lparr> ID = testID, Name = testID, Description = [], Dependencies = deps,
       Priority = 0, Timeout = 0, MaxRetries = 0,
       Setup = None, Execute = Some ex, Teardown = None \<rparr>"

definition succeed :: "'w hook" where
  "succeed c w = (None, w)"

definition failWith :: "string \<Rightarrow> 'w hook" where
  "failWith msg c w = (Some (CallbackError msg), w)"

definition chainAB :: "unit Test list" where
  "chainAB = [basicTest ''A'' [] succeed, basicTest ''B'' [''A''] succeed]"

text \<open>The world in which \<open>Execute\<close> is called: the one \<open>Setup\<close> leaves behind.\<close>

definition worldAfterSetup :: "'w ExecutionEngine \<Rightarrow> Context \<Rightarrow> 'w Test \<Rightarrow> 'w env \<Rightarrow> 'w" where
  "worldAfterSetup ee c test e =
     (case Setup test of
        None \<Rightarrow> world e
      | Some su \<Rightarrow> snd (su (testContext ee c test) (world e)))"

definition tornTest :: "unit Test" where
  "tornTest = (basicTest ''T'' [] succeed)\<lparr>Teardown := Some (failWith ''teardown broke'')\<rparr>"

definition emptyEnv :: "unit env" where
  "emptyEnv = \<lparr> world = (), calls = [] \<rparr>"

definition knownModes :: "ExecutionMode set" where
  "knownModes = {ExecutionModeSequential, ExecutionModeParallel,
                 ExecutionModeFailFast, ExecutionModeComprehensive}"

definition bogusConfig :: RunConfig where
  "bogusConfig = DefaultRunConfig\<lparr>Mode := ''bogus''\<rparr>"

text \<open>
  The attempts \<open>executeTest\<close> makes are the calls of \<open>runTestLifecycle\<close> it adds to the
  log. \<open>builtEngine\<close> is the engine \<open>NewExecutionEngine\<close> returns.
\<close>

definition lifecycleStarts :: "string \<Rightarrow> event list \<Rightarrow> nat" where
  "lifecycleStarts testID evs = count_list evs (LifecycleStarted testID)"

definition attemptsMade :: "'w ExecutionEngine \<Rightarrow> Context \<Rightarrow> 'w Test \<Rightarrow> 'w env \<Rightarrow> nat" where
  "attemptsMade ee c test e =
     lifecycleStarts (ID test) (calls (snd (snd (executeTest ee c test e))))
       - lifecycleStarts (ID test) (calls e)"

definition builtEngine :: "'w Test list \<Rightarrow> RunConfig \<Rightarrow> 'w ExecutionEngine" where
  "builtEngine ts cfg = projr (snd (NewExecutionEngine ts (Some cfg)))"

definition retryConfig :: RunConfig where
  "retryConfig = DefaultRunConfig\<lparr>Mode := ExecutionModeSequential\<rparr>"

definition noRetryConfig :: RunConfig where
  "noRetryConfig = retryConfig\<lparr>EnableRetry := False\<rparr>"

definition countingEnv :: "nat env" where
  "countingEnv = \<lparr> world = 0, calls = [] \<rparr>"

text \<open>A hook that counts its calls in the world and fails on the first two.\<close>

definition failTwice :: "nat hook" where
  "failTwice c n = (if n < 2 then Some (CallbackError ''not yet'') else None, n + 1)"

definition flakyTest :: "nat Test" where
  "flakyTest = (basicTest ''F'' [] failTwice)\<lparr>MaxRetries := 2\<rparr>"

definition steadyTest :: "nat Test" where
  "steadyTest = (basicTest ''S'' [] succeed)\<lparr>MaxRetries := 2\<rparr>"

definition stubbornTest :: "nat Test" where
  "stubbornTest = (basicTest ''N'' [] (failWith ''never''))\<lparr>MaxRetries := - 1\<rparr>"

definition executeAlone :: "RunConfig \<Rightarrow> nat Test \<Rightarrow> ExecutionResult outcome" where
  "executeAlone cfg test =
     fst (executeTest (builtEngine [test] cfg) (ctx (builtEngine [test] cfg)) test countingEnv)"

definition attemptsAlone :: "RunConfig \<Rightarrow> nat Test \<Rightarrow> nat" where
  "attemptsAlone cfg test =
     attemptsMade (builtEngine [test] cfg) (ctx (builtEngine [test] cfg)) test countingEnv"

text \<open>
  What the engine is given and must leave alone: the task list (also as the plan holds
  it), the configuration struct, the run context and the stored task count.
\<close>

definition sameInputs :: "'w ExecutionEngine \<Rightarrow> 'w ExecutionEngine \<Rightarrow> bool" where
  "sameInputs ee ee' \<longleftrightarrow>
     tests ee' = tests ee \<and> config ee' = config ee \<and> ctx ee' = ctx ee
     \<and> planTests (plan ee') = planTests (plan ee)
     \<and> dependencies (plan ee') = dependencies (plan ee)
     \<and> totalTests ee' = totalTests ee"

text \<open>
  \<open>callGetMetrics\<close> is \<open>GetMetrics\<close> as a call, with the engine it leaves: the method
  only loads the five counters.
\<close>

definition zeroWorkersConfig :: RunConfig where
  "zeroWorkersConfig = retryConfig\<lparr>MaxWorkers := 0\<rparr>"

definition soloA :: "unit Test list" where
  "soloA = [basicTest ''A'' [] succeed]"

definition passedA :: ExecutionResult where
  "passedA = \<lparr> TestID = ''A'', Status = TestStatusPassed, Error = None, RetryCount = 0,
               SkipReason = [] \<rparr>"

definition callGetMetrics :: "'w ExecutionEngine \<Rightarrow> TestMetrics \<times> 'w ExecutionEngine" where
  "callGetMetrics ee = (GetMetrics ee, ee)"

text \<open>Task A, whose \<open>Execute\<close> fails, and task B, which depends on A.\<close>

definition failingA :: "unit Test" where
  "failingA = basicTest ''A'' [] (failWith ''boom'')"

definition dependentB :: "unit Test" where
  "dependentB = basicTest ''B'' [''A''] succeed"

definition failingChain :: "unit Test list" where
  "failingChain = [failingA, dependentB]"

definition failedA :: ExecutionResult where
  "failedA = \<lparr> TestID = ''A'', Status = TestStatusFailed,
               Error = Some (ExecuteFailed (CallbackError ''boom'')), RetryCount = 0,
               SkipReason = [] \<rparr>"

definition skippedB :: ExecutionResult where
  "skippedB = \<lparr> TestID = ''B'', Status = TestStatusSkipped, Error = None, RetryCount = 0,
               SkipReason = ''dependencies failed'' \<rparr>"

text \<open>
  The failing chain in parallel mode with one worker; \<open>onlyA\<close> is what holds of every
  state of such a run: A is never completed, so only A is ever sent or recorded.
\<close>

definition parallelConfig :: RunConfig where
  "parallelConfig = DefaultRunConfig\<lparr>MaxWorkers := 1\<rparr>"

definition afterA :: "unit env" where
  "afterA = \<lparr> world = (), calls = [LifecycleStarted ''A'', ExecuteCalled ''A''] \<rparr>"

definition onlyA :: "unit ParState \<Rightarrow> bool" where
  "onlyA s \<longleftrightarrow>
     panicked s = None
     \<and> planTests (plan (eng s)) = failingChain
     \<and> ''A'' \<notin> completed (plan (eng s))
     \<and> set (workChan (eng s)) \<subseteq> {failingA}
     \<and> TestID ` set (results (eng s)) \<subseteq> {''A''}"

text \<open>
  The dependency graph of a plan: an edge from a task ID to each entry of its list in
  \<open>ep.dependencies\<close>. \<open>declaredEdges\<close> is the graph read off the task list itself; the two
  agree when the IDs are distinct. \<open>dfsInv\<close> is the invariant of the search: the nodes on
  the recursion stack are visited, and the finished nodes (visited, off the stack) are
  closed under edges and lie on no cycle.
\<close>

definition depEdges :: "(string \<times> string list) list \<Rightarrow> (string \<times> string) set" where
  "depEdges deps = {(u, v). v \<in> set (depsOf deps u)}"

definition cyclic :: "(string \<times> string list) list \<Rightarrow> bool" where
  "cyclic deps \<longleftrightarrow> (\<exists>u. (u, u) \<in> (depEdges deps)\<^sup>+)"

definition dfsInv :: "(string \<times> string list) list \<Rightarrow> string set \<Rightarrow> string set \<Rightarrow> bool" where
  "dfsInv deps visited recStack \<longleftrightarrow>
     recStack \<subseteq> visited
     \<and> (\<forall>b v. b \<in> visited - recStack \<longrightarrow> (b, v) \<in> depEdges deps \<longrightarrow> v \<in> visited - recStack)
     \<and> (\<forall>b \<in> visited - recStack. (b, b) \<notin> (depEdges deps)\<^sup>+)"

definition declaredEdges :: "'w Test list \<Rightarrow> (string \<times> string) set" where
  "declaredEdges ts = {(ID t, d) | t d. t \<in> set ts \<and> d \<in> set (Dependencies t)}"

definition mutualAB :: "unit Test list" where
  "mutualAB = [basicTest ''A'' [''B''] succeed, basicTest ''B'' [''A''] succeed]"

text \<open>
  \<open>MarkCompleted\<close> and \<open>MarkFailed\<close> calls as data, to speak of any sequence of them;
  \<open>planSound\<close> is what a parallel run keeps true: its plan marks only tasks of the list.
\<close>

datatype planMark = Completion string | Failure string

fun applyMark :: "planMark \<Rightarrow> 'w ExecutionPlan \<Rightarrow> 'w ExecutionPlan" where
  "applyMark (Completion testID) ep = MarkCompleted testID ep"
| "applyMark (Failure testID) ep = MarkFailed testID ep"

definition planSound :: "'w Test list \<Rightarrow> 'w ParState \<Rightarrow> bool" where
  "planSound ts s \<longleftrightarrow>
     planTests (plan (eng s)) = ts
     \<and> completed (plan (eng s)) \<subseteq> ID ` set ts
     \<and> set (workChan (eng s)) \<subseteq> set ts"

definition danglingPair :: "unit Test list" where
  "danglingPair = [basicTest ''A'' [''Z''] succeed, basicTest ''B'' [] succeed]"

text \<open>
  The invariant of the \<open>GetExecutionOrder\<close> loop used to characterise its result: a
  test \<open>t\<close> that declares a dependency and that nobody depends on starts with counter 0,
  is not in the initial queue, and can only be enqueued when its counter reaches 0 again
  after a decrement, which never happens.
\<close>

definition kahnInv ::
  "'w Test list \<Rightarrow> 'w Test \<Rightarrow> 'w Test list \<Rightarrow> (string \<rightharpoonup> int) \<Rightarrow> 'w Test list \<Rightarrow> bool"
where
  "kahnInv ts t queue inDegree ordered \<longleftrightarrow>
     distinct (ordered @ queue) \<and> set (ordered @ queue) \<subseteq> set ts \<and> t \<notin> set (ordered @ queue)
     \<and> inDegreeOf inDegree (ID t) \<le> 0
     \<and> (\<forall>x \<in> set (ordered @ queue). Dependencies x = [] \<or> inDegreeOf inDegree (ID x) \<le> 0)"

text \<open>
  The verdicts of successive attempts: \<open>lifecycleRuns ee c test n e\<close> lists what \<open>n\<close> calls
  of \<open>runTestLifecycle\<close> return, one after the other, starting in environment \<open>e\<close>;
  \<open>failuresBeforeSuccess\<close> counts the calls that return an error before the first one
  that returns nil. \<open>hopelessTest\<close> fails at every attempt.
\<close>

fun lifecycleRuns ::
  "'w ExecutionEngine \<Rightarrow> Context \<Rightarrow> 'w Test \<Rightarrow> nat \<Rightarrow> 'w env \<Rightarrow> error option list"
where
  "lifecycleRuns ee c test 0 e = []"
| "lifecycleRuns ee c test (Suc n) e =
     fst (runTestLifecycle ee c test e)
       # lifecycleRuns ee c test n (snd (runTestLifecycle ee c test e))"

definition failuresBeforeSuccess :: "error option list \<Rightarrow> nat" where
  "failuresBeforeSuccess errs = length (takeWhile (\<lambda>err. err \<noteq> None) errs)"

definition hopelessTest :: "nat Test" where
  "hopelessTest = (basicTest ''H'' [] (failWith ''never''))\<lparr>MaxRetries := 2\<rparr>"

text \<open>
  Two tasks with the same ID, the first depending on itself: \<open>ep.dependencies\<close> keeps the
  list of the last task of an ID only.
\<close>

definition shadowedLoop :: "unit Test list" where
  "shadowedLoop = [basicTest ''A'' [''A''] succeed, basicTest ''A'' [] succeed]"

text \<open>A task list of length 2^31, the first length that \<open>int32\<close> does not hold.\<close>

definition manyTasks :: "unit Test list" where
  "manyTasks = replicate (2 ^ 31) (basicTest ''A'' [] succeed)"

section \<open>Auxiliary lemmas\<close>

lemmas plan_eval_defs =
  NewExecutionPlan_def buildDependencies_def detectCircularDependencies_def depsOf_def
  GetExecutionOrder_def buildInDegree_def inDegreeOf_def basicTest_def
  hasCycle.simps hasCycleDeps.simps

lemma runTestLifecycle_error:
  "fst (runTestLifecycle ee c test e) =
     (case Setup test of
        Some su \<Rightarrow>
          (case fst (su (testContext ee c test) (world e)) of
             Some err \<Rightarrow> Some (SetupFailed err)
           | None \<Rightarrow>
               (case Execute test of
                  None \<Rightarrow> Some NoExecuteFunction
                | Some ex \<Rightarrow>
                    map_option ExecuteFailed
                      (fst (ex (testContext ee c test) (worldAfterSetup ee c test e)))))
      | None \<Rightarrow>
          (case Execute test of
             None \<Rightarrow> Some NoExecuteFunction
           | Some ex \<Rightarrow>
               map_option ExecuteFailed
                 (fst (ex (testContext ee c test) (worldAfterSetup ee c test e)))))"
  by (simp add: runTestLifecycle_def worldAfterSetup_def invokeHook_def Let_def
        split: option.splits prod.splits)

lemma testContext_retry [simp]:
  "testContext (ee\<lparr>retryAttempts := n\<rparr>) c test = testContext ee c test"
  by (simp add: testContext_def)

lemma testContext_Teardown [simp]:
  "testContext ee c (test\<lparr>Teardown := td\<rparr>) = testContext ee c test"
  by (simp add: testContext_def)

lemma worldAfterSetup_retry [simp]:
  "worldAfterSetup (ee\<lparr>retryAttempts := n\<rparr>) c test e = worldAfterSetup ee c test e"
  by (simp add: worldAfterSetup_def split: option.splits)

lemma worldAfterSetup_Teardown [simp]:
  "worldAfterSetup ee c (test\<lparr>Teardown := td\<rparr>) e = worldAfterSetup ee c test e"
  by (simp add: worldAfterSetup_def split: option.splits)

lemma config_capMaxWorkers_Mode [simp]: "Mode (capMaxWorkers c) = Mode c"
  by (simp add: capMaxWorkers_def Let_def)

lemma NewExecutionEngine_error_iff:
  "isl (snd (NewExecutionEngine ts cp)) \<longleftrightarrow> ts = [] \<or> isl (NewExecutionPlan ts)"
  by (simp add: NewExecutionEngine_def Let_def split: sum.splits)

lemma NewExecutionEngine_config:
  "snd (NewExecutionEngine ts cp) = Inr ee \<Longrightarrow>
     config ee = capMaxWorkers (case cp of None \<Rightarrow> DefaultRunConfig | Some c \<Rightarrow> c)"
  by (auto simp: NewExecutionEngine_def Let_def split: sum.splits if_splits)

lemma Run_unknown_iff:
  assumes "Mode (config ee) \<notin> knownModes"
  shows "Run ee e out ee' e' \<longleftrightarrow>
           out = Returned ([], Some (UnknownExecutionMode (Mode (config ee))))
           \<and> ee' = cancel ee \<and> e' = e"
proof
  assume "Run ee e out ee' e'"
  then show "out = Returned ([], Some (UnknownExecutionMode (Mode (config ee))))
           \<and> ee' = cancel ee \<and> e' = e"
    using assms by (cases rule: Run.cases) (auto simp: knownModes_def)
next
  assume "out = Returned ([], Some (UnknownExecutionMode (Mode (config ee))))
           \<and> ee' = cancel ee \<and> e' = e"
  then show "Run ee e out ee' e'"
    using assms Run_unknown[of ee e] by (simp add: knownModes_def)
qed

lemma lifecycleStarts_append [simp]:
  "lifecycleStarts t (xs @ ys) = lifecycleStarts t xs + lifecycleStarts t ys"
  by (simp add: lifecycleStarts_def)

lemma lifecycleStarts_simps [simp]:
  "lifecycleStarts t [] = 0"
  "lifecycleStarts t (LifecycleStarted u # xs) = (if u = t then 1 else 0) + lifecycleStarts t xs"
  "lifecycleStarts t (SetupCalled u # xs) = lifecycleStarts t xs"
  "lifecycleStarts t (ExecuteCalled u # xs) = lifecycleStarts t xs"
  "lifecycleStarts t (TeardownCalled u # xs) = lifecycleStarts t xs"
  by (simp_all add: lifecycleStarts_def)

lemma lifecycleStarts_runTestLifecycle:
  "lifecycleStarts (ID test) (calls (snd (runTestLifecycle ee c test e)))
     = lifecycleStarts (ID test) (calls e) + 1"
  by (auto simp: runTestLifecycle_def runDeferredTeardown_def invokeHook_def Let_def
        split: option.splits prod.splits)

lemma sint_succ: "sint x < 2 ^ 63 - 1 \<Longrightarrow> sint (x + 1) = sint x + 1"
    for x :: "64 word"
proof -
  assume a: "sint x < 2 ^ 63 - 1"
  have "- (2 ^ 63) \<le> sint x" using sint_ge[of x] by simp
  with a have "- (2 ^ 63) \<le> sint x + 1" "sint x + 1 < 2 ^ 63" by simp_all
  then have "signed_take_bit 63 (sint x + 1) = sint x + 1"
    by (simp add: signed_take_bit_int_eq_self)
  then show ?thesis by (simp add: sint_word_ariths)
qed

lemma sint_maxAttemptsOf:
  "\<not> EnableRetry (config ee) \<or> sint (MaxRetries test) \<le> 0 \<Longrightarrow>
     sint (maxAttemptsOf ee test) = 1"
  "EnableRetry (config ee) \<Longrightarrow> 0 \<le> sint (MaxRetries test) \<Longrightarrow>
     sint (MaxRetries test) < 2 ^ 63 - 1 \<Longrightarrow>
     sint (maxAttemptsOf ee test) = 1 + sint (MaxRetries test)"
  by (auto simp: maxAttemptsOf_def word_sless_alt sint_succ)

lemmas engine_eval_defs =
  builtEngine_def NewExecutionEngine_def capMaxWorkers_def DefaultRunConfig_def
  retryConfig_def noRetryConfig_def plan_eval_defs Let_def

lemmas execute_eval_defs =
  executeTest_def maxAttemptsOf_def runTestLifecycle_def runDeferredTeardown_def
  invokeHook_def testContext_def basicTest_def succeed_def failWith_def Let_def status_defs
  word_sless_alt

lemma sameInputs_refl [simp]: "sameInputs ee ee"
  by (simp add: sameInputs_def)

lemma sameInputs_trans: "sameInputs a b \<Longrightarrow> sameInputs b c \<Longrightarrow> sameInputs a c"
  by (simp add: sameInputs_def)

lemma sameInputs_recordResult [simp]: "sameInputs ee (recordResult r ee') = sameInputs ee ee'"
  by (simp add: sameInputs_def recordResult_def Let_def)

lemma sameInputs_skipTest [simp]: "sameInputs ee (skipTest t reason ee') = sameInputs ee ee'"
  by (simp add: skipTest_def)

lemma sameInputs_marks [simp]:
  "sameInputs ee (markTestCompleted i ee') = sameInputs ee ee'"
  "sameInputs ee (markTestFailed i ee') = sameInputs ee ee'"
  "sameInputs ee (cancel ee') = sameInputs ee ee'"
  "sameInputs ee (ee'\<lparr>ctxDone := b\<rparr>) = sameInputs ee ee'"
  "sameInputs ee (ee'\<lparr>workChan := q\<rparr>) = sameInputs ee ee'"
  "sameInputs ee (ee'\<lparr>workChanClosed := b\<rparr>) = sameInputs ee ee'"
  "sameInputs ee (ee'\<lparr>retryAttempts := n\<rparr>) = sameInputs ee ee'"
  by (simp_all add: sameInputs_def markTestCompleted_def markTestFailed_def cancel_def)

lemma sameInputs_workerRecord [simp]:
  "sameInputs ee (workerRecord t r ee') = sameInputs ee ee'"
  by (simp add: workerRecord_def Let_def MarkCompleted_def MarkFailed_def)
     (simp add: sameInputs_def markTestCompleted_def markTestFailed_def recordResult_def Let_def)

lemma sameInputs_executeAttempts:
  "executeAttempts ee c test M a r l e = (out, ee', e') \<Longrightarrow> sameInputs ee ee'"
proof (induction ee c test M a r l e arbitrary: out ee' e' rule: executeAttempts.induct)
  case (1 ee c test M a r l e)
  show ?case
  proof (cases "a < M")
    case False
    with "1.prems" show ?thesis
      by (subst (asm) executeAttempts.simps) (auto split: option.splits)
  next
    case True
    define r1 where "r1 = (if 0 < a then r\<lparr>RetryCount := a\<rparr> else r)"
    define ee1 where "ee1 = (if 0 < a then ee\<lparr>retryAttempts := retryAttempts ee + 1\<rparr> else ee)"
    obtain err e1 where life: "runTestLifecycle ee1 c test e = (err, e1)"
      by (cases "runTestLifecycle ee1 c test e")
    have s1: "sameInputs ee ee1" by (simp add: ee1_def)
    show ?thesis
    proof (cases err)
      case None
      with True life "1.prems" have "ee' = ee1"
        by (subst (asm) executeAttempts.simps) (simp add: Let_def r1_def ee1_def)
      with s1 show ?thesis by simp
    next
      case (Some er)
      with True life "1.prems"
      have rec: "executeAttempts ee1 c test M (a + 1) r1 (Some er) e1 = (out, ee', e')"
        by (subst (asm) executeAttempts.simps) (simp add: Let_def r1_def ee1_def)
      have "sameInputs ee1 ee'"
        using "1.IH"[OF True r1_def ee1_def refl life[symmetric] Some rec] .
      with s1 show ?thesis by (rule sameInputs_trans)
    qed
  qed
qed

lemma sameInputs_executeTest:
  "executeTest ee c test e = (out, ee', e') \<Longrightarrow> sameInputs ee ee'"
  unfolding executeTest_def by (rule sameInputs_executeAttempts)

lemma sameInputs_sequentialLoop:
  "sequentialLoop ts ee e = (out, ee', e') \<Longrightarrow> sameInputs ee ee'"
proof (induction ts arbitrary: ee e)
  case Nil
  then show ?case by simp
next
  case (Cons t ts)
  show ?case
  proof (cases "shouldRunTest ee t")
    case False
    with Cons.prems have "sequentialLoop ts (skipTest t ''dependencies failed'' ee) e = (out, ee', e')"
      by simp
    from Cons.IH[OF this] show ?thesis by (simp add: sameInputs_def skipTest_def recordResult_def Let_def)
  next
    case True
    obtain o1 ee1 e1 where ex: "executeTest ee (ctx ee) t e = (o1, ee1, e1)"
      by (cases "executeTest ee (ctx ee) t e")
    have s1: "sameInputs ee ee1" using ex by (rule sameInputs_executeTest)
    show ?thesis
    proof (cases o1)
      case (Panicked x)
      with True ex Cons.prems s1 show ?thesis by simp
    next
      case (Returned r)
      define ee3 where "ee3 = (if Status r = TestStatusFailed then markTestFailed (ID t) (recordResult r ee1)
                         else if Status r = TestStatusPassed
                              then markTestCompleted (ID t) (recordResult r ee1)
                         else recordResult r ee1)"
      have s3: "sameInputs ee ee3" using s1 by (simp add: ee3_def)
      from True ex Returned Cons.prems have "sequentialLoop ts ee3 e1 = (out, ee', e')"
        by (simp add: Let_def ee3_def)
      from Cons.IH[OF this] s3 show ?thesis by (rule sameInputs_trans[rotated])
    qed
  qed
qed

lemma sameInputs_runSequential:
  "runSequential ee e = (out, ee', e') \<Longrightarrow> sameInputs ee ee'"
  by (auto simp: runSequential_def split: sum.splits prod.splits outcome.splits
        dest: sameInputs_sequentialLoop)

lemma sameInputs_failFastLoop:
  "failFastLoop ts ee e out ee' e' \<Longrightarrow> sameInputs ee ee'"
proof (induction rule: failFastLoop.induct)
  case (ff_fail ee test e result ee1 e1 ee2 rest)
  then show ?case using sameInputs_executeTest[of ee "ctx ee" test e] by simp
next
  case (ff_pass ee test e result ee1 e1 rest out ee' e')
  have "sameInputs ee ee1" using ff_pass.hyps(3) by (rule sameInputs_executeTest)
  then have "sameInputs ee (markTestCompleted (ID test) (recordResult result ee1))" by simp
  then show ?case using ff_pass.IH by (rule sameInputs_trans)
next
  case (ff_skip ee test rest e out ee' e')
  have "sameInputs ee (skipTest test ''dependencies failed'' ee)" by simp
  then show ?case using ff_skip.IH by (rule sameInputs_trans)
qed (auto dest: sameInputs_executeTest)

lemma sameInputs_runFailFast:
  "runFailFast ee e out ee' e' \<Longrightarrow> sameInputs ee ee'"
  by (induction rule: runFailFast.induct) (auto dest: sameInputs_failFastLoop)

lemma sameInputs_parStep:
  "parStep s s' \<Longrightarrow> sameInputs (eng s) (eng s')"
proof (induction rule: parStep.induct)
  case (worker_execute s test rest result ee1 e1)
  have "sameInputs ((eng s)\<lparr>workChan := rest\<rparr>) ee1"
    using worker_execute.hyps(6) by (rule sameInputs_executeTest)
  then have "sameInputs (eng s) ee1" by (simp add: sameInputs_def)
  then have "sameInputs (eng s) (workerRecord test result ee1)" by simp
  then show ?case by simp
next
  case (worker_panic s test rest err ee1 e1)
  have "sameInputs ((eng s)\<lparr>workChan := rest\<rparr>) ee1"
    using worker_panic.hyps(6) by (rule sameInputs_executeTest)
  then show ?case by (simp add: sameInputs_def)
qed (simp_all add: sameInputs_def skipTest_def recordResult_def Let_def)

lemma sameInputs_parSteps:
  "rtranclp parStep s s' \<Longrightarrow> sameInputs (eng s) (eng s')"
  by (induction rule: rtranclp_induct) (auto dest: sameInputs_parStep intro: sameInputs_trans)

lemma sameInputs_runParallel:
  "runParallel ee e out ee' e' \<Longrightarrow> sameInputs ee ee'"
  by (induction rule: runParallel.induct)
     (auto dest!: sameInputs_parSteps simp: parInit_def)

lemma sameInputs_Run:
  "Run ee e out ee' e' \<Longrightarrow> sameInputs ee ee'"
  by (induction rule: Run.induct)
     (auto dest: sameInputs_runSequential sameInputs_runParallel sameInputs_runFailFast)

lemma sint_word_of_nat_32:
  "n < 2 ^ 31 \<Longrightarrow> sint (word_of_nat n :: 32 word) = int n"
proof -
  assume "n < 2 ^ 31"
  then have "int n < 2 ^ 31" by (metis of_nat_less_numeral_power_cancel_iff)
  then have "signed_take_bit 31 (int n) = int n"
    by (simp add: signed_take_bit_int_eq_self)
  then show ?thesis by (simp add: signed_of_nat)
qed

lemma capMaxWorkers_eq:
  "capMaxWorkers c =
     c\<lparr>MaxWorkers := (if sint (MaxWorkers c) < 1 then 1
                      else if 100 < sint (MaxWorkers c) then 100 else MaxWorkers c)\<rparr>"
  by (simp add: capMaxWorkers_def Let_def word_sless_alt)

lemma NewExecutionEngine_caller_config:
  "fst (NewExecutionEngine ts cp) = (if ts = [] then cp else map_option capMaxWorkers cp)"
  by (cases cp) (simp_all add: NewExecutionEngine_def Let_def split: sum.splits)

lemma NewExecutionEngine_fields:
  assumes "snd (NewExecutionEngine ts cp) = Inr ee"
  shows "tests ee = ts" "planTests (plan ee) = ts" "totalTests ee = word_of_nat (length ts)"
    "results ee = []" "ts \<noteq> []" "NewExecutionPlan ts = Inr (plan ee)"
  using assms
  by (auto simp: NewExecutionEngine_def NewExecutionPlan_def Let_def
        split: sum.splits if_splits option.splits)

lemma soloA_run:
  "runSequential (builtEngine soloA zeroWorkersConfig) emptyEnv
     = (Returned ([passedA], None),
        markTestCompleted ''A'' (recordResult passedA (builtEngine soloA zeroWorkersConfig)),
        \<lparr> world = (), calls = [LifecycleStarted ''A'', ExecuteCalled ''A''] \<rparr>)"
  by (simp add: runSequential_def soloA_def zeroWorkersConfig_def engine_eval_defs emptyEnv_def
        shouldRunTest_def execute_eval_defs passedA_def recordResult_def markTestCompleted_def
        kahnLoop.simps)

lemma soloA_built:
  "snd (NewExecutionEngine soloA (Some zeroWorkersConfig))
     = Inr (builtEngine soloA zeroWorkersConfig)"
  "Mode (config (builtEngine soloA zeroWorkersConfig)) = ExecutionModeSequential"
  by (simp_all add: soloA_def zeroWorkersConfig_def engine_eval_defs)

lemma soloA_Run:
  "Run (builtEngine soloA zeroWorkersConfig) emptyEnv (Returned ([passedA], None))
     (cancel (markTestCompleted ''A'' (recordResult passedA (builtEngine soloA zeroWorkersConfig))))
     \<lparr> world = (), calls = [LifecycleStarted ''A'', ExecuteCalled ''A''] \<rparr>"
  by (rule Run_sequential[OF soloA_built(2) soloA_run])

lemmas chain_eval_defs =
  failingChain_def failingA_def dependentB_def failedA_def skippedB_def emptyEnv_def
  shouldRunTest_def recordResult_def skipTest_def markTestCompleted_def markTestFailed_def

lemma parallelEngine_fields:
  "snd (NewExecutionEngine failingChain (Some parallelConfig))
     = Inr (builtEngine failingChain parallelConfig)"
  "config (builtEngine failingChain parallelConfig) = parallelConfig"
  "tests (builtEngine failingChain parallelConfig) = failingChain"
  "plan (builtEngine failingChain parallelConfig)
     = \<lparr> planTests = failingChain, dependencies = [(''A'', []), (''B'', [''A''])],
         completed = {}, failed = {} \<rparr>"
  "workChan (builtEngine failingChain parallelConfig) = []"
  "ctxDone (builtEngine failingChain parallelConfig) = False"
  "workChanClosed (builtEngine failingChain parallelConfig) = False"
  "results (builtEngine failingChain parallelConfig) = []"
  "completedTests (builtEngine failingChain parallelConfig) = {}"
  "failedTestsList (builtEngine failingChain parallelConfig) = {}"
  by (simp_all add: chain_eval_defs builtEngine_def NewExecutionEngine_def capMaxWorkers_def
        DefaultRunConfig_def parallelConfig_def plan_eval_defs Let_def word_sless_alt)

lemma executeTest_failingA:
  "executeTest ee c failingA e
     = (Returned failedA, ee,
        \<lparr> world = world e, calls = calls e @ [LifecycleStarted ''A'', ExecuteCalled ''A''] \<rparr>)"
  by (simp add: failingA_def failedA_def execute_eval_defs)

lemma dispatchReady_subset:
  "set (snd (dispatchReady ts (d, q))) \<subseteq> set q \<union> set ts"
proof (induction ts arbitrary: d q)
  case Nil
  then show ?case by simp
next
  case (Cons t ts)
  show ?case
  proof (cases "ID t \<notin> d")
    case True
    then show ?thesis using Cons.IH[of "insert (ID t) d" "q @ [t]"] by auto
  next
    case False
    then show ?thesis using Cons.IH[of d q] by auto
  qed
qed

lemma ready_without_A:
  assumes "planTests p = failingChain" and "''A'' \<notin> completed p"
  shows "set (GetReadyTests p) \<subseteq> {failingA}"
  using assms
  by (auto simp: GetReadyTests_def allDepsSatisfied_def failingChain_def dependentB_def
        basicTest_def)

lemma results_recordResult [simp]: "results (recordResult r ee) = results ee @ [r]"
  by (simp add: recordResult_def Let_def)

lemma plan_recordResult [simp]: "plan (recordResult r ee) = plan ee"
  by (simp add: recordResult_def Let_def)

lemma workChan_recordResult [simp]: "workChan (recordResult r ee) = workChan ee"
  by (simp add: recordResult_def Let_def)

lemma onlyA_step:
  assumes "parStep s s'" and "onlyA s"
  shows "onlyA s'"
  using assms
proof (induction rule: parStep.induct)
  case (dispatcher_send s disp' chan')
  have "set (GetReadyTests (plan (eng s))) \<subseteq> {failingA}"
    using dispatcher_send.prems by (intro ready_without_A) (simp_all add: onlyA_def)
  moreover have "set chan' \<subseteq> set (workChan (eng s)) \<union> set (GetReadyTests (plan (eng s)))"
    using dispatchReady_subset[of "GetReadyTests (plan (eng s))" "dispatched s" "workChan (eng s)"]
      dispatcher_send.hyps(5) by simp
  ultimately show ?case using dispatcher_send.prems by (auto simp: onlyA_def)
next
  case (worker_cancelled s test rest)
  then have "test = failingA" by (auto simp: onlyA_def)
  with worker_cancelled show ?case
    by (auto simp: onlyA_def skipTest_def failingA_def basicTest_def)
next
  case (worker_skip s test rest)
  then have "test = failingA" by (auto simp: onlyA_def)
  with worker_skip show ?case
    by (auto simp: onlyA_def skipTest_def failingA_def basicTest_def)
next
  case (worker_execute s test rest result ee1 e1)
  then have t: "test = failingA" by (auto simp: onlyA_def)
  with worker_execute.hyps(6) have r: "result = failedA" "ee1 = (eng s)\<lparr>workChan := rest\<rparr>"
    by (simp_all add: executeTest_failingA)
  have "workerRecord failingA failedA ee1
          = (markTestFailed ''A'' (recordResult failedA ee1))
              \<lparr>plan := MarkFailed ''A'' (plan ee1)\<rparr>"
    by (simp add: workerRecord_def failedA_def status_defs Let_def failingA_def basicTest_def
          markTestFailed_def)
  with t r worker_execute show ?case
    by (auto simp: onlyA_def markTestFailed_def MarkFailed_def failedA_def)
next
  case (worker_panic s test rest err ee1 e1)
  then have "test = failingA" by (auto simp: onlyA_def)
  with worker_panic.hyps(6) show ?case by (simp add: executeTest_failingA)
qed (auto simp: onlyA_def)

lemma onlyA_steps:
  "rtranclp parStep s s' \<Longrightarrow> onlyA s \<Longrightarrow> onlyA s'"
  by (induction rule: rtranclp_induct) (auto intro: onlyA_step)

lemma onlyA_init: "onlyA (parInit (builtEngine failingChain parallelConfig) e)"
  by (simp add: onlyA_def parInit_def parallelEngine_fields)

lemma parallel_runs_never_record_B:
  assumes "Run (builtEngine failingChain parallelConfig) e out ee' e'"
  shows "\<exists>rs. out = Returned (rs, None) \<and> ''B'' \<notin> TestID ` set rs"
proof -
  have mode: "Mode (config (builtEngine failingChain parallelConfig)) = ExecutionModeParallel"
    unfolding parallelEngine_fields by (simp add: parallelConfig_def DefaultRunConfig_def)
  from assms mode have "\<exists>ee''. runParallel (builtEngine failingChain parallelConfig) e out ee'' e'"
    by (cases rule: Run.cases) (auto simp: mode_defs)
  then obtain ee'' where "runParallel (builtEngine failingChain parallelConfig) e out ee'' e'" ..
  then show ?thesis
  proof (cases rule: runParallel.cases)
    case (parallel_return s)
    from onlyA_steps[OF parallel_return(4) onlyA_init] have "onlyA s" .
    then have "''B'' \<notin> TestID ` set (results (eng s))" by (auto simp: onlyA_def)
    with parallel_return(1) show ?thesis by simp
  next
    case (parallel_panic s err)
    from onlyA_steps[OF parallel_panic(4) onlyA_init] have "onlyA s" .
    with parallel_panic(5) show ?thesis by (simp add: onlyA_def)
  qed
qed

lemma closed_trancl:
  assumes "(b, x) \<in> E\<^sup>+" and "b \<in> B" and "\<And>a v. a \<in> B \<Longrightarrow> (a, v) \<in> E \<Longrightarrow> v \<in> B"
  shows "x \<in> B"
  using assms by (induction rule: trancl_induct) auto

lemma dfsInv_finish:
  assumes inv: "dfsInv deps visited' (insert u recStack)"
    and u: "u \<notin> recStack" "u \<in> visited'"
    and succ: "set (depsOf deps u) \<subseteq> visited' - insert u recStack"
  shows "dfsInv deps visited' recStack"
proof -
  let ?E = "depEdges deps"
  let ?B0 = "visited' - insert u recStack"
  have closed0: "\<And>a v. a \<in> ?B0 \<Longrightarrow> (a, v) \<in> ?E \<Longrightarrow> v \<in> ?B0"
    using inv unfolding dfsInv_def by blast
  have black: "visited' - recStack = insert u ?B0" using u by auto
  have sub: "recStack \<subseteq> visited'" using inv unfolding dfsInv_def by blast
  have closed: "v \<in> visited' - recStack"
    if "b \<in> visited' - recStack" "(b, v) \<in> ?E" for b v
  proof (cases "b = u")
    case True
    with that(2) succ have "v \<in> ?B0" by (auto simp: depEdges_def)
    then show ?thesis by auto
  next
    case False
    with that(1) have "b \<in> ?B0" by auto
    from closed0[OF this that(2)] show ?thesis by auto
  qed
  have acyc: "(b, b) \<notin> ?E\<^sup>+" if "b \<in> visited' - recStack" for b
  proof (cases "b = u")
    case False
    with that have "b \<in> ?B0" by auto
    with inv show ?thesis unfolding dfsInv_def by blast
  next
    case True
    show ?thesis
    proof
      assume "(b, b) \<in> ?E\<^sup>+"
      then have "(u, u) \<in> ?E\<^sup>+" using True by simp
      then obtain v where v: "(u, v) \<in> ?E" "(v, u) \<in> ?E\<^sup>*"
        using tranclD[of u u ?E] by blast
      from v(1) succ have vB: "v \<in> ?B0" by (auto simp: depEdges_def)
      then have "v \<noteq> u" by auto
      with v(2) have "(v, u) \<in> ?E\<^sup>+" by (simp add: rtrancl_eq_or_trancl)
      from closed_trancl[OF this vB closed0] show False by auto
    qed
  qed
  from sub closed acyc show ?thesis unfolding dfsInv_def by blast
qed

declare hasCycle.simps [simp del] hasCycleDeps.simps [simp del]

lemma hasCycle_correct:
  "u \<notin> visited \<longrightarrow> dfsInv deps visited recStack \<longrightarrow>
     (\<forall>g \<in> recStack. (g, u) \<in> (depEdges deps)\<^sup>*) \<longrightarrow>
     (\<forall>found visited' recStack'.
        hasCycle deps u (visited, recStack) = (found, visited', recStack') \<longrightarrow>
          (found \<longrightarrow> cyclic deps)
          \<and> (\<not> found \<longrightarrow> recStack' = recStack \<and> visited \<subseteq> visited' \<and> u \<in> visited'
                \<and> dfsInv deps visited' recStack))"
  "\<forall>cur. cur \<in> recStack \<longrightarrow> dfsInv deps visited recStack \<longrightarrow>
     (\<forall>g \<in> recStack. (g, cur) \<in> (depEdges deps)\<^sup>*) \<longrightarrow>
     set ds \<subseteq> set (depsOf deps cur) \<longrightarrow>
     (\<forall>found visited' recStack'.
        hasCycleDeps deps ds (visited, recStack) = (found, visited', recStack') \<longrightarrow>
          (found \<longrightarrow> cyclic deps)
          \<and> (\<not> found \<longrightarrow> recStack' = recStack \<and> visited \<subseteq> visited'
                \<and> set ds \<subseteq> visited' - recStack \<and> dfsInv deps visited' recStack))"
proof (induction deps u "(visited, recStack)" and deps ds "(visited, recStack)"
        arbitrary: visited recStack and visited recStack
        rule: hasCycle_hasCycleDeps.induct)
  case (1 deps testID visited recStack)
  let ?E = "depEdges deps"
  show ?case
  proof (intro impI allI)
    fix found visited' recStack'
    assume fresh: "testID \<notin> visited" and inv: "dfsInv deps visited recStack"
      and grey: "\<forall>g \<in> recStack. (g, testID) \<in> ?E\<^sup>*"
      and res: "hasCycle deps testID (visited, recStack) = (found, visited', recStack')"
    obtain f v1 r1 where loop:
      "hasCycleDeps deps (depsOf deps testID) (insert testID visited, insert testID recStack)
         = (f, v1, r1)"
      using prod_cases3 by blast
    have sub: "recStack \<subseteq> visited" using inv unfolding dfsInv_def by blast
    have notrec: "testID \<notin> recStack" using fresh sub by blast
    have eqB: "insert testID visited - insert testID recStack = visited - recStack"
      using fresh by blast
    have inv1: "dfsInv deps (insert testID visited) (insert testID recStack)"
      using inv sub unfolding dfsInv_def eqB by blast
    have grey1: "\<forall>g \<in> insert testID recStack. (g, testID) \<in> ?E\<^sup>*"
      using grey by blast
    have cur1: "testID \<in> insert testID recStack" by blast
    have post: "(f \<longrightarrow> cyclic deps)
          \<and> (\<not> f \<longrightarrow> r1 = insert testID recStack \<and> insert testID visited \<subseteq> v1
                \<and> set (depsOf deps testID) \<subseteq> v1 - insert testID recStack
                \<and> dfsInv deps v1 (insert testID recStack))"
      using "1.hyps"[rule_format, OF cur1 inv1 _ subset_refl loop] grey1 by blast
    have unfold: "hasCycle deps testID (visited, recStack)
        = (if f then (True, v1, r1) else (False, v1, r1 - {testID}))"
      by (simp add: hasCycle.simps loop)
    show "(found \<longrightarrow> cyclic deps)
          \<and> (\<not> found \<longrightarrow> recStack' = recStack \<and> visited \<subseteq> visited' \<and> testID \<in> visited'
                \<and> dfsInv deps visited' recStack)"
    proof (cases f)
      case True
      with res unfold post show ?thesis by simp
    next
      case False
      with res unfold have r: "found = False" "visited' = v1" "recStack' = r1 - {testID}"
        by simp_all
      from False post have p: "r1 = insert testID recStack" "insert testID visited \<subseteq> v1"
        "set (depsOf deps testID) \<subseteq> v1 - insert testID recStack"
        "dfsInv deps v1 (insert testID recStack)" by blast+
      have tv: "testID \<in> v1" using p(2) by blast
      have "dfsInv deps v1 recStack"
        using p(4) notrec tv p(3) by (rule dfsInv_finish)
      moreover have "r1 - {testID} = recStack" using p(1) notrec by blast
      moreover have "visited \<subseteq> v1" using p(2) by blast
      ultimately show ?thesis using r tv by simp
    qed
  qed
next
  case (2 deps)
  then show ?case by (simp add: hasCycleDeps.simps)
next
  case (3 deps depID rest visited recStack)
  let ?E = "depEdges deps"
  show ?case
  proof (intro impI allI)
    fix cur found visited' recStack'
    assume cur: "cur \<in> recStack" and inv: "dfsInv deps visited recStack"
      and grey: "\<forall>g \<in> recStack. (g, cur) \<in> ?E\<^sup>*"
      and sub: "set (depID # rest) \<subseteq> set (depsOf deps cur)"
      and res: "hasCycleDeps deps (depID # rest) (visited, recStack)
                  = (found, visited', recStack')"
    have edge: "(cur, depID) \<in> ?E" using sub by (simp add: depEdges_def)
    have subrest: "set rest \<subseteq> set (depsOf deps cur)" using sub by simp
    have recvis: "recStack \<subseteq> visited" using inv unfolding dfsInv_def by blast
    show "(found \<longrightarrow> cyclic deps)
          \<and> (\<not> found \<longrightarrow> recStack' = recStack \<and> visited \<subseteq> visited'
                \<and> set (depID # rest) \<subseteq> visited' - recStack \<and> dfsInv deps visited' recStack)"
    proof (cases "depID \<notin> visited")
      case fresh: True
      obtain f v1 r1 where call: "hasCycle deps depID (visited, recStack) = (f, v1, r1)"
        using prod_cases3 by blast
      have grey1: "\<forall>g \<in> recStack. (g, depID) \<in> ?E\<^sup>*"
      proof
        fix g assume "g \<in> recStack"
        then have "(g, cur) \<in> ?E\<^sup>*" using grey by blast
        then show "(g, depID) \<in> ?E\<^sup>*" using edge by (rule rtrancl.rtrancl_into_rtrancl)
      qed
      have post1: "(f \<longrightarrow> cyclic deps)
          \<and> (\<not> f \<longrightarrow> r1 = recStack \<and> visited \<subseteq> v1 \<and> depID \<in> v1 \<and> dfsInv deps v1 recStack)"
        using "3.hyps"(1)[OF fresh, rule_format, OF fresh inv grey1[rule_format] call] .
      have unfold: "hasCycleDeps deps (depID # rest) (visited, recStack)
          = (if f then (True, v1, r1) else hasCycleDeps deps rest (v1, r1))"
        using fresh by (simp add: hasCycleDeps.simps call)
      show ?thesis
      proof (cases f)
        case True
        with res unfold post1 show ?thesis by simp
      next
        case False
        with post1 have p1: "r1 = recStack" "visited \<subseteq> v1" "depID \<in> v1"
          "dfsInv deps v1 recStack" by blast+
        from res unfold False p1(1)
        have rest: "hasCycleDeps deps rest (v1, recStack) = (found, visited', recStack')"
          by simp
        have call': "(f, v1, recStack) = hasCycle deps depID (visited, recStack)"
          using call p1(1) by simp
        have post2: "(found \<longrightarrow> cyclic deps)
          \<and> (\<not> found \<longrightarrow> recStack' = recStack \<and> v1 \<subseteq> visited'
                \<and> set rest \<subseteq> visited' - recStack \<and> dfsInv deps visited' recStack)"
          using "3.hyps"(2)[OF fresh refl call' False, rule_format, OF cur p1(4) grey[rule_format] subrest rest] .
        have dn: "depID \<notin> recStack" using fresh recvis by blast
        show ?thesis
        proof (intro conjI impI)
          assume "found" then show "cyclic deps" using post2 by blast
        next
          assume nf: "\<not> found"
          then show "recStack' = recStack" using post2 by blast
          show "visited \<subseteq> visited'" using nf post2 p1(2) by blast
          show "set (depID # rest) \<subseteq> visited' - recStack"
            using nf post2 p1(3) dn by auto
          show "dfsInv deps visited' recStack" using nf post2 by blast
        qed
      qed
    next
      case seen: False
      show ?thesis
      proof (cases "depID \<in> recStack")
        case True
        have "hasCycleDeps deps (depID # rest) (visited, recStack) = (True, visited, recStack)"
          using seen True by (simp add: hasCycleDeps.simps)
        with res have "found" by simp
        moreover have "(depID, cur) \<in> ?E\<^sup>*" using grey True by blast
        then have "(depID, depID) \<in> ?E\<^sup>+" using edge by (rule rtrancl_into_trancl1)
        then have "cyclic deps" unfolding cyclic_def by blast
        ultimately show ?thesis by simp
      next
        case False
        have "hasCycleDeps deps (depID # rest) (visited, recStack)
                = hasCycleDeps deps rest (visited, recStack)"
          using seen False by (simp add: hasCycleDeps.simps)
        with res
        have rest: "hasCycleDeps deps rest (visited, recStack) = (found, visited', recStack')"
          by simp
        have post: "(found \<longrightarrow> cyclic deps)
          \<and> (\<not> found \<longrightarrow> recStack' = recStack \<and> visited \<subseteq> visited'
                \<and> set rest \<subseteq> visited' - recStack \<and> dfsInv deps visited' recStack)"
          using "3.hyps"(3)[OF seen False, rule_format, OF cur inv grey[rule_format] subrest rest] .
        have dv: "depID \<in> visited" using seen by simp
        show ?thesis
        proof (intro conjI impI)
          assume "found" then show "cyclic deps" using post by blast
        next
          assume nf: "\<not> found"
          then show "recStack' = recStack" using post by blast
          show "visited \<subseteq> visited'" using nf post by blast
          show "set (depID # rest) \<subseteq> visited' - recStack"
            using nf post dv False by auto
          show "dfsInv deps visited' recStack" using nf post by blast
        qed
      qed
    qed
  qed
qed

lemma dfsInv_empty: "dfsInv deps {} {}"
  by (simp add: dfsInv_def)

lemma detectLoop_correct:
  assumes "dfsInv deps visited {}"
  shows "(detectLoop deps ts (visited, {}) = None \<longrightarrow>
           (\<exists>visited'. visited \<union> ID ` set ts \<subseteq> visited' \<and> dfsInv deps visited' {}))
       \<and> (\<forall>err. detectLoop deps ts (visited, {}) = Some err \<longrightarrow>
             cyclic deps \<and> (\<exists>t \<in> set ts. err = CircularDependencyInvolving (ID t)))"
  using assms
proof (induction ts arbitrary: visited)
  case Nil
  then show ?case by auto
next
  case (Cons t ts)
  show ?case
  proof (cases "ID t \<notin> visited")
    case seen: False
    then have eq: "detectLoop deps (t # ts) (visited, {}) = detectLoop deps ts (visited, {})"
      by simp
    from Cons.IH[OF Cons.prems] seen show ?thesis unfolding eq by auto
  next
    case fresh: True
    obtain f v1 r1 where call: "hasCycle deps (ID t) (visited, {}) = (f, v1, r1)"
      using prod_cases3 by blast
    have post: "(f \<longrightarrow> cyclic deps)
        \<and> (\<not> f \<longrightarrow> r1 = {} \<and> visited \<subseteq> v1 \<and> ID t \<in> v1 \<and> dfsInv deps v1 {})"
      using hasCycle_correct(1)[rule_format, OF fresh Cons.prems _ call] by blast
    have eq: "detectLoop deps (t # ts) (visited, {})
        = (if f then Some (CircularDependencyInvolving (ID t)) else detectLoop deps ts (v1, r1))"
      using fresh call by simp
    show ?thesis
    proof (cases f)
      case True
      with post eq show ?thesis by simp
    next
      case False
      with post have p: "r1 = {}" "visited \<subseteq> v1" "ID t \<in> v1" "dfsInv deps v1 {}"
        by blast+
      from False eq p(1)
      have eq': "detectLoop deps (t # ts) (visited, {}) = detectLoop deps ts (v1, {})"
        by simp
      from Cons.IH[OF p(4)] p(2,3) show ?thesis unfolding eq' by auto
    qed
  qed
qed

lemma fold_update_keys:
  "fst ` set (fold (\<lambda>t d. AList.update (ID t) (Dependencies t) d) ts acc)
     = fst ` set acc \<union> ID ` set ts"
  by (induction ts arbitrary: acc) (auto simp: AList.dom_update)

lemma fold_update_source:
  "map_of (fold (\<lambda>t d. AList.update (ID t) (Dependencies t) d) ts acc) k = Some ds \<Longrightarrow>
     (\<exists>t \<in> set ts. ID t = k \<and> Dependencies t = ds) \<or> map_of acc k = Some ds"
proof (induction ts arbitrary: acc)
  case Nil
  then show ?case by simp
next
  case (Cons t ts)
  from Cons.IH[of "AList.update (ID t) (Dependencies t) acc"] Cons.prems
  have "(\<exists>t' \<in> set ts. ID t' = k \<and> Dependencies t' = ds)
        \<or> map_of (AList.update (ID t) (Dependencies t) acc) k = Some ds"
    by simp
  then show ?case
    by (auto simp: AList.update_conv' split: if_splits)
qed

lemma fold_update_other:
  "k \<notin> ID ` set ts \<Longrightarrow>
     map_of (fold (\<lambda>t d. AList.update (ID t) (Dependencies t) d) ts acc) k = map_of acc k"
  by (induction ts arbitrary: acc) (auto simp: AList.update_conv')

lemma fold_update_distinct:
  "distinct (map ID ts) \<Longrightarrow> t \<in> set ts \<Longrightarrow>
     map_of (fold (\<lambda>t d. AList.update (ID t) (Dependencies t) d) ts acc) (ID t)
       = Some (Dependencies t)"
proof (induction ts arbitrary: acc)
  case Nil
  then show ?case by simp
next
  case (Cons a ts)
  show ?case
  proof (cases "t \<in> set ts")
    case True
    with Cons show ?thesis by simp
  next
    case False
    with Cons.prems have ta: "t = a" and "ID a \<notin> ID ` set ts" by auto
    then show ?thesis
      using fold_update_other[of "ID a" ts "AList.update (ID a) (Dependencies a) acc"]
      by (simp add: AList.update_conv')
  qed
qed

lemma depEdges_subset_declared:
  "depEdges (buildDependencies ts) \<subseteq> declaredEdges ts"
proof
  fix e assume "e \<in> depEdges (buildDependencies ts)"
  then obtain u v where e: "e = (u, v)" and v: "v \<in> set (depsOf (buildDependencies ts) u)"
    by (auto simp: depEdges_def)
  then obtain ds where ds: "map_of (buildDependencies ts) u = Some ds" "v \<in> set ds"
    by (cases "map_of (buildDependencies ts) u") (auto simp: depsOf_def)
  from fold_update_source[of ts "[]" u ds] ds(1)
  obtain t where "t \<in> set ts" "ID t = u" "Dependencies t = ds"
    by (auto simp: buildDependencies_def)
  with ds(2) e show "e \<in> declaredEdges ts" by (auto simp: declaredEdges_def)
qed

lemma depEdges_eq_declared:
  assumes "distinct (map ID ts)"
  shows "depEdges (buildDependencies ts) = declaredEdges ts"
proof
  show "depEdges (buildDependencies ts) \<subseteq> declaredEdges ts"
    by (rule depEdges_subset_declared)
  show "declaredEdges ts \<subseteq> depEdges (buildDependencies ts)"
  proof
    fix e assume "e \<in> declaredEdges ts"
    then obtain t d where e: "e = (ID t, d)" and t: "t \<in> set ts" "d \<in> set (Dependencies t)"
      by (auto simp: declaredEdges_def)
    from fold_update_distinct[OF assms t(1), of "[]"]
    have "depsOf (buildDependencies ts) (ID t) = Dependencies t"
      by (simp add: depsOf_def buildDependencies_def)
    with e t(2) show "e \<in> depEdges (buildDependencies ts)" by (simp add: depEdges_def)
  qed
qed

lemma dfsInv_all_keys_acyclic:
  assumes inv: "dfsInv deps visited {}" and keys: "fst ` set deps \<subseteq> visited"
  shows "\<not> cyclic deps"
proof
  assume "cyclic deps"
  then obtain u where u: "(u, u) \<in> (depEdges deps)\<^sup>+" unfolding cyclic_def by blast
  then obtain v where "(u, v) \<in> depEdges deps" using tranclD[of u u "depEdges deps"] by blast
  then have "depsOf deps u \<noteq> []" by (auto simp: depEdges_def)
  then obtain ds where "map_of deps u = Some ds"
    by (cases "map_of deps u") (auto simp: depsOf_def)
  then have "(u, ds) \<in> set deps" by (rule map_of_SomeD)
  then have "u \<in> fst ` set deps" by force
  with keys have "u \<in> visited - {}" by blast
  with inv u show False unfolding dfsInv_def by blast
qed

lemma NewExecutionPlan_cases:
  "NewExecutionPlan ts =
     (case detectLoop (buildDependencies ts) ts ({}, {}) of
        Some err \<Rightarrow> Inl err
      | None \<Rightarrow> Inr \<lparr> planTests = ts, dependencies = buildDependencies ts,
                       completed = {}, failed = {} \<rparr>)"
  by (simp add: NewExecutionPlan_def detectCircularDependencies_def)

lemma NewExecutionPlan_fails_iff:
  "isl (NewExecutionPlan ts) \<longleftrightarrow> cyclic (buildDependencies ts)"
proof (cases "detectLoop (buildDependencies ts) ts ({}, {})")
  case None
  with detectLoop_correct[OF dfsInv_empty, of "buildDependencies ts" ts]
  obtain V where V: "ID ` set ts \<subseteq> V" "dfsInv (buildDependencies ts) V {}" by auto
  have "fst ` set (buildDependencies ts) = ID ` set ts"
    using fold_update_keys[of ts "[]"] by (simp add: buildDependencies_def)
  with V have "\<not> cyclic (buildDependencies ts)"
    by (intro dfsInv_all_keys_acyclic[of _ V]) auto
  with None show ?thesis by (simp add: NewExecutionPlan_cases)
next
  case (Some err)
  with detectLoop_correct[OF dfsInv_empty, of "buildDependencies ts" ts]
  have "cyclic (buildDependencies ts)" by auto
  with Some show ?thesis by (simp add: NewExecutionPlan_cases)
qed

lemma NewExecutionPlan_error_names_task:
  "NewExecutionPlan ts = Inl err \<Longrightarrow> \<exists>t \<in> set ts. err = CircularDependencyInvolving (ID t)"
  using detectLoop_correct[OF dfsInv_empty, of "buildDependencies ts" ts]
  by (auto simp: NewExecutionPlan_cases split: option.splits)

lemma executeAttempts_engine:
  "executeAttempts ee c test M a r l e = (out, ee', e') \<Longrightarrow>
     \<exists>n. ee' = ee\<lparr>retryAttempts := n\<rparr>"
proof (induction ee c test M a r l e arbitrary: out ee' e' rule: executeAttempts.induct)
  case (1 ee c test M a r l e)
  have self: "ee = ee\<lparr>retryAttempts := retryAttempts ee\<rparr>" by simp
  show ?case
  proof (cases "a < M")
    case False
    with "1.prems" have "ee' = ee"
      by (subst (asm) executeAttempts.simps) (auto split: option.splits)
    with self show ?thesis by metis
  next
    case True
    define r1 where "r1 = (if 0 < a then r\<lparr>RetryCount := a\<rparr> else r)"
    define ee1 where "ee1 = (if 0 < a then ee\<lparr>retryAttempts := retryAttempts ee + 1\<rparr> else ee)"
    obtain err e1 where life: "runTestLifecycle ee1 c test e = (err, e1)"
      by (cases "runTestLifecycle ee1 c test e")
    have s1: "\<exists>n. ee1 = ee\<lparr>retryAttempts := n\<rparr>"
    proof (cases "0 < a")
      case True
      then show ?thesis unfolding ee1_def by auto
    next
      case False
      then have "ee1 = ee" by (simp add: ee1_def)
      with self show ?thesis by metis
    qed
    show ?thesis
    proof (cases err)
      case None
      with True life "1.prems" have "ee' = ee1"
        by (subst (asm) executeAttempts.simps) (simp add: Let_def r1_def ee1_def)
      with s1 show ?thesis by simp
    next
      case (Some er)
      with True life "1.prems"
      have rec: "executeAttempts ee1 c test M (a + 1) r1 (Some er) e1 = (out, ee', e')"
        by (subst (asm) executeAttempts.simps) (simp add: Let_def r1_def ee1_def)
      from "1.IH"[OF True r1_def ee1_def refl life[symmetric] Some rec]
      obtain n where "ee' = ee1\<lparr>retryAttempts := n\<rparr>" by blast
      with s1 show ?thesis by auto
    qed
  qed
qed

lemma executeTest_engine:
  "executeTest ee c test e = (out, ee', e') \<Longrightarrow> \<exists>n. ee' = ee\<lparr>retryAttempts := n\<rparr>"
  unfolding executeTest_def by (rule executeAttempts_engine)

lemma GetReadyTests_subset: "set (GetReadyTests p) \<subseteq> set (planTests p)"
  by (auto simp: GetReadyTests_def)

lemma completed_workerRecord:
  "completed (plan (workerRecord test result ee)) \<subseteq> insert (ID test) (completed (plan ee))"
  "planTests (plan (workerRecord test result ee)) = planTests (plan ee)"
  "workChan (workerRecord test result ee) = workChan ee"
  by (auto simp: workerRecord_def Let_def MarkCompleted_def MarkFailed_def
        markTestCompleted_def markTestFailed_def)

lemma planSound_step:
  assumes "parStep s s'" and "planSound ts s"
  shows "planSound ts s'"
  using assms
proof (induction rule: parStep.induct)
  case (dispatcher_send s disp' chan')
  have "set chan' \<subseteq> set (workChan (eng s)) \<union> set (GetReadyTests (plan (eng s)))"
    using dispatchReady_subset[of "GetReadyTests (plan (eng s))" "dispatched s" "workChan (eng s)"]
      dispatcher_send.hyps(5) by simp
  with GetReadyTests_subset[of "plan (eng s)"] dispatcher_send.prems
  show ?case by (auto simp: planSound_def)
next
  case (worker_execute s test rest result ee1 e1)
  from executeTest_engine[OF worker_execute.hyps(6)]
  obtain n where ee1: "ee1 = (eng s)\<lparr>workChan := rest, retryAttempts := n\<rparr>" by auto
  have "test \<in> set ts" using worker_execute.hyps(3) worker_execute.prems
    by (auto simp: planSound_def)
  with completed_workerRecord[of test result ee1] worker_execute.prems worker_execute.hyps(3)
  show ?case unfolding ee1 by (auto simp: planSound_def)
next
  case (worker_panic s test rest err ee1 e1)
  from executeTest_engine[OF worker_panic.hyps(6)]
  obtain n where ee1: "ee1 = (eng s)\<lparr>workChan := rest, retryAttempts := n\<rparr>" by auto
  with worker_panic.prems worker_panic.hyps(3) show ?case by (auto simp: planSound_def)
qed (auto simp: planSound_def skipTest_def)

lemma planSound_steps:
  "rtranclp parStep s s' \<Longrightarrow> planSound ts s \<Longrightarrow> planSound ts s'"
  by (induction rule: rtranclp_induct) (auto intro: planSound_step)

lemma completed_fold_applyMark:
  "completed (fold applyMark marks p) = completed p \<union> {i. Completion i \<in> set marks}"
proof (induction marks arbitrary: p)
  case Nil
  show ?case by simp
next
  case (Cons m marks)
  show ?case using Cons[of "applyMark m p"]
    by (cases m) (auto simp: MarkCompleted_def MarkFailed_def)
qed

lemma not_ready_with_uncompleted_dependency:
  "d \<in> set (Dependencies t) \<Longrightarrow> d \<notin> completed p \<Longrightarrow> t \<notin> set (GetReadyTests p)"
  by (auto simp: GetReadyTests_def allDepsSatisfied_def list_all_iff)

lemma acyclic_declared_plan_succeeds:
  assumes "\<not> (\<exists>u. (u, u) \<in> (declaredEdges ts)\<^sup>+)"
  shows "\<not> isl (NewExecutionPlan ts)"
proof
  assume "isl (NewExecutionPlan ts)"
  then have "cyclic (buildDependencies ts)" by (simp add: NewExecutionPlan_fails_iff)
  then obtain u where "(u, u) \<in> (depEdges (buildDependencies ts))\<^sup>+"
    unfolding cyclic_def by blast
  then have "(u, u) \<in> (declaredEdges ts)\<^sup>+"
    using trancl_mono[OF _ depEdges_subset_declared] by blast
  with assms show False by blast
qed

lemma NewExecutionPlan_Inr:
  "NewExecutionPlan ts = Inr p \<Longrightarrow>
     p = \<lparr> planTests = ts, dependencies = buildDependencies ts, completed = {}, failed = {} \<rparr>"
  by (auto simp: NewExecutionPlan_cases split: option.splits)

lemma planSound_init:
  assumes "snd (NewExecutionEngine ts cp) = Inr ee"
  shows "planSound ts (parInit ee e)"
proof -
  from assms have p: "NewExecutionPlan ts = Inr (plan ee)" and w: "workChan ee = []"
    by (auto simp: NewExecutionEngine_def Let_def split: sum.splits if_splits)
  from NewExecutionPlan_Inr[OF p] have "planTests (plan ee) = ts" "completed (plan ee) = {}"
    by (metis ExecutionPlan.select_convs(1), metis ExecutionPlan.select_convs(3))
  with w show ?thesis by (simp add: planSound_def parInit_def)
qed

subsection \<open>When \<open>GetExecutionOrder\<close> succeeds\<close>

lemma inDegreeOf_count_other:
  "k \<notin> set deps \<Longrightarrow>
     inDegreeOf (fold (\<lambda>dep m. m(dep \<mapsto> inDegreeOf m dep + 1)) deps m) k = inDegreeOf m k"
  by (induction deps arbitrary: m) (auto simp: inDegreeOf_def)

lemma inDegreeOf_build_other:
  fixes ts :: "'w Test list"
  assumes "\<forall>x \<in> set ts. k \<notin> set (Dependencies x)"
  shows "inDegreeOf
       (fold (\<lambda>test inDegree.
               fold (\<lambda>dep m. m(dep \<mapsto> inDegreeOf m dep + 1)) (Dependencies test)
                 (if inDegree (ID test) = None then inDegree(ID test \<mapsto> 0) else inDegree))
          ts m) k
     = inDegreeOf m k"
proof -
  define F :: "'w Test \<Rightarrow> (string \<rightharpoonup> int) \<Rightarrow> (string \<rightharpoonup> int)" where
    "F = (\<lambda>test inDegree.
               fold (\<lambda>dep m. m(dep \<mapsto> inDegreeOf m dep + 1)) (Dependencies test)
                 (if inDegree (ID test) = None then inDegree(ID test \<mapsto> 0) else inDegree))"
  have one: "inDegreeOf (F a m) k = inDegreeOf m k" if "k \<notin> set (Dependencies a)" for a m
  proof -
    have "inDegreeOf (if m (ID a) = None then m(ID a \<mapsto> 0) else m) k = inDegreeOf m k"
      by (auto simp: inDegreeOf_def)
    then show ?thesis
      unfolding F_def using inDegreeOf_count_other[OF that] by simp
  qed
  have "inDegreeOf (fold F ts m) k = inDegreeOf m k"
    using assms
  proof (induction ts arbitrary: m)
    case Nil
    then show ?case by simp
  next
    case (Cons a ts)
    have "inDegreeOf (fold F ts (F a m)) k = inDegreeOf (F a m) k"
      using Cons.prems by (intro Cons.IH) simp
    also have "\<dots> = inDegreeOf m k" using Cons.prems by (intro one) simp
    finally show ?case by simp
  qed
  then show ?thesis unfolding F_def .
qed

lemma resolveDeps_kahnInv:
  assumes dist: "distinct (map ID ts)" and tin: "t \<in> set ts" and test: "test \<in> set ts"
    and nonempty: "ds \<noteq> [] \<longrightarrow> Dependencies test \<noteq> []"
    and inv: "kahnInv ts t q m ordered"
  shows "kahnInv ts t (snd (resolveDeps test cur ds (m, q)))
           (fst (resolveDeps test cur ds (m, q))) ordered"
  using nonempty inv
proof (induction ds arbitrary: m q)
  case Nil
  then show ?case by simp
next
  case (Cons dep ds)
  have deps: "Dependencies test \<noteq> []" using Cons.prems(1) by simp
  show ?case
  proof (cases "dep = cur")
    case False
    then show ?thesis using Cons.IH[OF _ Cons.prems(2)] deps by simp
  next
    case True
    define v where "v = inDegreeOf m (ID test)"
    define m' where "m' = m(ID test \<mapsto> v - 1)"
    have val: "inDegreeOf m' (ID test) = v - 1" by (simp add: m'_def inDegreeOf_def)
    have other: "\<And>x. x \<in> set ts \<Longrightarrow> x \<noteq> test \<Longrightarrow> inDegreeOf m' (ID x) = inDegreeOf m (ID x)"
    proof -
      fix x assume "x \<in> set ts" "x \<noteq> test"
      with test dist have "ID x \<noteq> ID test" by (meson distinct_map inj_onD)
      then show "inDegreeOf m' (ID x) = inDegreeOf m (ID x)"
        by (simp add: m'_def inDegreeOf_def)
    qed
    note I = Cons.prems(2)[unfolded kahnInv_def]
    have member_low: "x \<in> set (ordered @ q) \<Longrightarrow> x = test \<Longrightarrow> v \<le> 0" for x
      using I deps unfolding v_def by blast
    have t_low: "test = t \<Longrightarrow> v \<le> 0" using I unfolding v_def by blast
    have keepK: "inDegreeOf m' (ID t) \<le> 0"
    proof (cases "t = test")
      case True
      with t_low val show ?thesis by simp
    next
      case False
      with other[OF tin] I show ?thesis by simp
    qed
    have keepMembers: "Dependencies x = [] \<or> inDegreeOf m' (ID x) \<le> 0"
      if "x \<in> set (ordered @ q)" for x
    proof (cases "x = test")
      case True
      with member_low[OF that] val show ?thesis by simp
    next
      case False
      have "x \<in> set ts" using that I by blast
      from other[OF this False] that I show ?thesis by auto
    qed
    show ?thesis
    proof (cases "v - 1 = 0")
      case zero: True
      then have vpos: "v = 1" by simp
      have fresh: "test \<notin> set (ordered @ q)" using member_low vpos by fastforce
      have nt: "test \<noteq> t" using t_low vpos by fastforce
      have inv': "kahnInv ts t (q @ [test]) m' ordered"
        unfolding kahnInv_def
      proof (intro conjI ballI)
        show "distinct (ordered @ q @ [test])" using I fresh by auto
        show "set (ordered @ q @ [test]) \<subseteq> set ts" using I test by auto
        show "t \<notin> set (ordered @ q @ [test])" using I nt by auto
        show "inDegreeOf m' (ID t) \<le> 0" by (rule keepK)
      next
        fix x assume "x \<in> set (ordered @ q @ [test])"
        then consider "x \<in> set (ordered @ q)" | "x = test" by auto
        then show "Dependencies x = [] \<or> inDegreeOf m' (ID x) \<le> 0"
        proof cases
          case 1
          then show ?thesis by (rule keepMembers)
        next
          case 2
          with val zero show ?thesis by simp
        qed
      qed
      have step: "resolveDeps test cur (dep # ds) (m, q) = resolveDeps test cur ds (m', q @ [test])"
        using True zero val by (simp add: m'_def v_def)
      show ?thesis unfolding step using Cons.IH[OF _ inv'] deps by simp
    next
      case nz: False
      have inv': "kahnInv ts t q m' ordered"
        unfolding kahnInv_def using I keepK keepMembers by blast
      have step: "resolveDeps test cur (dep # ds) (m, q) = resolveDeps test cur ds (m', q)"
        using True nz val by (simp add: m'_def v_def)
      show ?thesis unfolding step using Cons.IH[OF _ inv'] deps by simp
    qed
  qed
qed

lemma resolveTests_kahnInv:
  assumes dist: "distinct (map ID ts)" and tin: "t \<in> set ts"
  shows "set xs \<subseteq> set ts \<Longrightarrow> kahnInv ts t (snd st) (fst st) ordered \<Longrightarrow>
     kahnInv ts t (snd (resolveTests cur xs st)) (fst (resolveTests cur xs st)) ordered"
proof (induction xs arbitrary: st)
  case Nil
  then show ?case by simp
next
  case (Cons x xs)
  obtain m q where st: "st = (m, q)" by (cases st)
  have "kahnInv ts t (snd (resolveDeps x cur (Dependencies x) (m, q)))
           (fst (resolveDeps x cur (Dependencies x) (m, q))) ordered"
    using Cons.prems st by (intro resolveDeps_kahnInv[OF dist tin]) auto
  then show ?case using Cons.IH[of "resolveDeps x cur (Dependencies x) (m, q)"] Cons.prems st
    by simp
qed

lemma kahnLoop_kahnInv:
  "distinct (map ID ts) \<Longrightarrow> t \<in> set ts \<Longrightarrow> kahnInv ts t queue m ordered \<Longrightarrow>
     \<exists>m'. kahnInv ts t [] m' (kahnLoop ts queue m ordered)"
proof (induction ts queue m ordered rule: kahnLoop.induct)
  case (1 tests inDegree ordered)
  then show ?case by auto
next
  case (2 tests current queue inDegree ordered)
  obtain m1 q1 where r: "resolveTests (ID current) tests (inDegree, queue) = (m1, q1)"
    by (cases "resolveTests (ID current) tests (inDegree, queue)")
  have "kahnInv tests t queue inDegree (ordered @ [current])"
    using "2.prems"(3) unfolding kahnInv_def by auto
  then have "kahnInv tests t (snd (inDegree, queue)) (fst (inDegree, queue)) (ordered @ [current])"
    by simp
  from resolveTests_kahnInv[OF "2.prems"(1,2) subset_refl this, of "ID current"] r
  have inv1: "kahnInv tests t q1 m1 (ordered @ [current])" by simp
  have step: "kahnLoop tests (current # queue) inDegree ordered
                = kahnLoop tests q1 m1 (ordered @ [current])"
    using r by simp
  from "2.IH"[OF refl r[symmetric] "2.prems"(1,2) inv1] show ?case unfolding step .
qed

lemma GetExecutionOrder_fails_on_dependent_leaf:
  assumes dist: "distinct (map ID (planTests ep))" and tin: "t \<in> set (planTests ep)"
    and deps: "Dependencies t \<noteq> []"
    and leaf: "\<forall>x \<in> set (planTests ep). ID t \<notin> set (Dependencies x)"
  shows "GetExecutionOrder ep = Inl CircularDependencyDetected"
proof -
  let ?ts = "planTests ep"
  let ?q0 = "filter (\<lambda>test. length (Dependencies test) = 0) ?ts"
  let ?m0 = "buildInDegree ?ts"
  have d: "distinct ?ts" using dist by (simp add: distinct_map)
  have k0: "inDegreeOf ?m0 (ID t) = 0"
    unfolding buildInDegree_def using inDegreeOf_build_other[OF leaf, of Map.empty]
    by (simp add: inDegreeOf_def)
  have inv0: "kahnInv ?ts t ?q0 ?m0 []"
    unfolding kahnInv_def using d deps k0 by auto
  from kahnLoop_kahnInv[OF dist tin inv0]
  obtain m' where fin: "kahnInv ?ts t [] m' (kahnLoop ?ts ?q0 ?m0 [])" by blast
  let ?ord = "kahnLoop ?ts ?q0 ?m0 []"
  from fin have o: "distinct ?ord" "set ?ord \<subseteq> set ?ts" "t \<notin> set ?ord"
    unfolding kahnInv_def by auto
  then have "set ?ord \<subset> set ?ts" using tin by blast
  then have "card (set ?ord) < card (set ?ts)" by (intro psubset_card_mono) simp_all
  then have "length ?ord < length ?ts"
    using o(1) d by (simp add: distinct_card)
  then show ?thesis by (simp add: GetExecutionOrder_def Let_def)
qed


lemma finite_declaredEdges: "finite (declaredEdges ts)"
proof -
  have "declaredEdges ts \<subseteq> (\<Union>t \<in> set ts. (\<lambda>d. (ID t, d)) ` set (Dependencies t))"
    by (auto simp: declaredEdges_def)
  moreover have "finite (\<Union>t \<in> set ts. (\<lambda>d. (ID t, d)) ` set (Dependencies t))" by simp
  ultimately show ?thesis by (rule finite_subset)
qed

lemma dependent_leaf_exists:
  fixes ts :: "'w Test list"
  assumes acyc: "\<not> (\<exists>u. (u, u) \<in> (declaredEdges ts)\<^sup>+)"
    and some: "t0 \<in> set ts" "Dependencies t0 \<noteq> []"
  shows "\<exists>t \<in> set ts. Dependencies t \<noteq> [] \<and> (\<forall>x \<in> set ts. ID t \<notin> set (Dependencies x))"
proof -
  have "acyclic (declaredEdges ts)" using acyc by (auto simp: acyclic_def)
  with finite_declaredEdges have w: "wf (declaredEdges ts)" by (rule finite_acyclic_wf)
  define S where "S = {ID t | t. t \<in> set ts \<and> Dependencies t \<noteq> []}"
  have "ID t0 \<in> S" using some by (auto simp: S_def)
  with w obtain z where z: "z \<in> S" "\<And>y. (y, z) \<in> declaredEdges ts \<Longrightarrow> y \<notin> S"
    by (rule wfE_min) blast
  from z(1) obtain t where t: "t \<in> set ts" "Dependencies t \<noteq> []" "z = ID t"
    by (auto simp: S_def)
  have "ID t \<notin> set (Dependencies x)" if "x \<in> set ts" for x
  proof
    assume l: "ID t \<in> set (Dependencies x)"
    then have "(ID x, z) \<in> declaredEdges ts" using that t(3) by (auto simp: declaredEdges_def)
    moreover have "ID x \<in> S" using that l by (auto simp: S_def)
    ultimately show False using z(2) by blast
  qed
  with t show ?thesis by blast
qed

lemma resolveTests_no_dependencies:
  "\<forall>x \<in> set xs. Dependencies x = [] \<Longrightarrow> resolveTests cur xs st = st"
  by (induction xs arbitrary: st) simp_all

lemma kahnLoop_no_dependencies:
  "\<forall>x \<in> set ts. Dependencies x = [] \<Longrightarrow> kahnLoop ts queue m ordered = ordered @ queue"
proof (induction queue arbitrary: ordered)
  case Nil
  then show ?case by simp
next
  case (Cons current queue)
  have "resolveTests (ID current) ts (m, queue) = (m, queue)"
    using Cons.prems by (rule resolveTests_no_dependencies)
  then show ?case using Cons.IH[OF Cons.prems, of "ordered @ [current]"] by simp
qed

lemma GetExecutionOrder_succeeds_iff_no_dependencies:
  assumes dist: "distinct (map ID ts)" and plan: "NewExecutionPlan ts = Inr ep"
  shows "GetExecutionOrder ep =
           (if \<forall>t \<in> set ts. Dependencies t = [] then Inr ts
            else Inl CircularDependencyDetected)"
proof -
  from NewExecutionPlan_Inr[OF plan] have pt: "planTests ep = ts"
    by (metis ExecutionPlan.select_convs(1))
  show ?thesis
  proof (cases "\<forall>t \<in> set ts. Dependencies t = []")
    case True
    then have "filter (\<lambda>test. length (Dependencies test) = 0) ts = ts" by (simp add: filter_id_conv)
    with True show ?thesis
      by (simp add: GetExecutionOrder_def pt kahnLoop_no_dependencies)
  next
    case False
    then obtain t0 where t0: "t0 \<in> set ts" "Dependencies t0 \<noteq> []" by blast
    have "\<not> isl (NewExecutionPlan ts)" using plan by simp
    then have "\<not> cyclic (buildDependencies ts)" by (simp add: NewExecutionPlan_fails_iff)
    then have "\<not> (\<exists>u. (u, u) \<in> (declaredEdges ts)\<^sup>+)"
      using depEdges_eq_declared[OF dist] by (simp add: cyclic_def)
    from dependent_leaf_exists[OF this t0]
    obtain t where t: "t \<in> set ts" "Dependencies t \<noteq> []"
      "\<forall>x \<in> set ts. ID t \<notin> set (Dependencies x)" by blast
    have "GetExecutionOrder ep = Inl CircularDependencyDetected"
      using dist t unfolding pt[symmetric] by (intro GetExecutionOrder_fails_on_dependent_leaf)
    with False show ?thesis by simp
  qed
qed

subsection \<open>The attempts of \<open>executeTest\<close>, one by one\<close>

lemma runTestLifecycle_config:
  "config ee1 = config ee \<Longrightarrow> runTestLifecycle ee1 c test e = runTestLifecycle ee c test e"
  by (simp add: runTestLifecycle_def testContext_def)

lemma lifecycleRuns_config:
  "config ee1 = config ee \<Longrightarrow> lifecycleRuns ee1 c test n e = lifecycleRuns ee c test n e"
  by (induction n arbitrary: e) (simp_all add: runTestLifecycle_config[of ee1 ee])

lemma length_lifecycleRuns [simp]: "length (lifecycleRuns ee c test n e) = n"
  by (induction n arbitrary: e) simp_all

lemma failuresBeforeSuccess_simps [simp]:
  "failuresBeforeSuccess [] = 0"
  "failuresBeforeSuccess (None # errs) = 0"
  "failuresBeforeSuccess (Some er # errs) = Suc (failuresBeforeSuccess errs)"
  by (simp_all add: failuresBeforeSuccess_def)

lemma failuresBeforeSuccess_le: "failuresBeforeSuccess errs \<le> length errs"
  by (simp add: failuresBeforeSuccess_def length_takeWhile_le)

lemma executeAttempts_runs:
  assumes "executeAttempts ee c test M a r l e = (out, ee', e')" and "0 \<le> a" and "a \<le> M"
  shows
    "if failuresBeforeSuccess (lifecycleRuns ee c test (nat (M - a)) e) < nat (M - a) then
       lifecycleStarts (ID test) (calls e')
         = lifecycleStarts (ID test) (calls e)
           + failuresBeforeSuccess (lifecycleRuns ee c test (nat (M - a)) e) + 1
       \<and> (\<exists>r'. out = Returned r' \<and> Status r' = TestStatusPassed \<and> Error r' = Error r
              \<and> RetryCount r'
                  = (if 0 < a + int (failuresBeforeSuccess (lifecycleRuns ee c test (nat (M - a)) e))
                     then a + int (failuresBeforeSuccess (lifecycleRuns ee c test (nat (M - a)) e))
                     else RetryCount r))
     else
       lifecycleStarts (ID test) (calls e') = lifecycleStarts (ID test) (calls e) + nat (M - a)
       \<and> (case (if M \<le> a then l else last (lifecycleRuns ee c test (nat (M - a)) e)) of
             None \<Rightarrow> out = Panicked NilDereference
           | Some er \<Rightarrow>
               (\<exists>r'. out = Returned r' \<and> Status r' = TestStatusFailed \<and> Error r' = Some er
                  \<and> RetryCount r' = (if a < M \<and> 0 < M - 1 then M - 1 else RetryCount r)))"
  using assms
proof (induction ee c test M a r l e arbitrary: out ee' e' rule: executeAttempts.induct)
  case (1 ee c test M a r l e)
  show ?case
  proof (cases "a < M")
    case False
    with "1.prems" have eq: "M = a" by simp
    have res: "(out, ee', e') =
        (case l of None \<Rightarrow> (Panicked NilDereference, ee, e)
         | Some er \<Rightarrow> (Returned (r\<lparr>Status := TestStatusFailed, Error := Some er\<rparr>), ee, e))"
      using "1.prems"(1) False by (subst (asm) executeAttempts.simps) simp
    then show ?thesis
      by (cases l) (simp_all add: eq)
  next
    case True
    define r1 where "r1 = (if 0 < a then r\<lparr>RetryCount := a\<rparr> else r)"
    define ee1 where "ee1 = (if 0 < a then ee\<lparr>retryAttempts := retryAttempts ee + 1\<rparr> else ee)"
    have cfg: "config ee1 = config ee" by (simp add: ee1_def)
    obtain err e1 where life: "runTestLifecycle ee1 c test e = (err, e1)"
      by (cases "runTestLifecycle ee1 c test e")
    then have life0: "runTestLifecycle ee c test e = (err, e1)"
      using runTestLifecycle_config[OF cfg] by simp
    have cnt: "lifecycleStarts (ID test) (calls e1) = lifecycleStarts (ID test) (calls e) + 1"
      using lifecycleStarts_runTestLifecycle[of test ee1 c e] life by simp
    define n where "n = nat (M - (a + 1))"
    have nM: "nat (M - a) = Suc n" using True by (simp add: n_def)
    define runs1 where "runs1 = lifecycleRuns ee c test n e1"
    have runs: "lifecycleRuns ee c test (nat (M - a)) e = err # runs1"
      by (simp add: nM life0 runs1_def)
    have len1: "length runs1 = n" by (simp add: runs1_def)
    show ?thesis
    proof (cases err)
      case None
      with True life "1.prems" have "out = Returned (r1\<lparr>Status := TestStatusPassed\<rparr>)" "e' = e1"
        by (subst (asm) executeAttempts.simps; simp add: Let_def r1_def ee1_def)+
      with cnt True None show ?thesis
        unfolding runs unfolding nM by (simp add: r1_def)
    next
      case (Some er)
      with True life "1.prems"
      have rec: "executeAttempts ee1 c test M (a + 1) r1 (Some er) e1 = (out, ee', e')"
        by (subst (asm) executeAttempts.simps) (simp add: Let_def r1_def ee1_def)
      have a1: "0 \<le> a + 1" "a + 1 \<le> M" using "1.prems"(2) True by simp_all
      have runs1': "lifecycleRuns ee1 c test n e1 = runs1"
        by (simp add: runs1_def lifecycleRuns_config[OF cfg])
      note ih0 = "1.IH"[OF True r1_def ee1_def refl life[symmetric] Some rec a1,
                   unfolded n_def[symmetric]]
      note ih = ih0[unfolded runs1']
      define k1 where "k1 = failuresBeforeSuccess runs1"
      have k: "failuresBeforeSuccess (err # runs1) = Suc k1" by (simp add: Some k1_def)
      show ?thesis
      proof (cases "k1 < n")
        case lt: True
        from ih lt have both:
          "lifecycleStarts (ID test) (calls e')
             = lifecycleStarts (ID test) (calls e1) + failuresBeforeSuccess runs1 + 1
           \<and> (\<exists>r'. out = Returned r' \<and> Status r' = TestStatusPassed \<and> Error r' = Error r1
              \<and> RetryCount r' = (if 0 < a + 1 + int (failuresBeforeSuccess runs1)
                                  then a + 1 + int (failuresBeforeSuccess runs1)
                                  else RetryCount r1))"
          unfolding k1_def by (simp only: if_True)
        have s: "lifecycleStarts (ID test) (calls e') = lifecycleStarts (ID test) (calls e1) + k1 + 1"
          using both unfolding k1_def by (rule conjunct1)
        have "0 < a + 1 + int k1" using "1.prems"(2) by simp
        with both have o: "\<exists>r'. out = Returned r' \<and> Status r' = TestStatusPassed
              \<and> Error r' = Error r1 \<and> RetryCount r' = a + 1 + int k1"
          unfolding k1_def by (simp only: if_True conjunct2)
        have pos: "0 < a + int (Suc k1)" using "1.prems"(2) by simp
        have lt': "Suc k1 < Suc n" using lt by (simp add: k1_def)
        have er1: "Error r1 = Error r" by (simp add: r1_def)
        have o': "\<exists>r'. out = Returned r' \<and> Status r' = TestStatusPassed
              \<and> Error r' = Error r \<and> RetryCount r' = a + int (Suc k1)"
          using o er1 by (simp add: add.commute add.left_commute)
        have s': "lifecycleStarts (ID test) (calls e')
                   = lifecycleStarts (ID test) (calls e) + Suc k1 + 1"
          using s cnt by simp
        show ?thesis
          unfolding runs unfolding nM k using lt' pos o' s' by (simp only: if_True simp_thms)
      next
        case ge: False
        from ih ge have both:
          "lifecycleStarts (ID test) (calls e') = lifecycleStarts (ID test) (calls e1) + n
           \<and> (case (if M \<le> a + 1 then Some er else last runs1) of
             None \<Rightarrow> out = Panicked NilDereference
           | Some er \<Rightarrow>
               (\<exists>r'. out = Returned r' \<and> Status r' = TestStatusFailed \<and> Error r' = Some er
                  \<and> RetryCount r' = (if a + 1 < M \<and> 0 < M - 1 then M - 1 else RetryCount r1)))"
          unfolding k1_def by (simp only: if_False)
        have s: "lifecycleStarts (ID test) (calls e') = lifecycleStarts (ID test) (calls e1) + n"
          using both by (rule conjunct1)
        have o: "case (if M \<le> a + 1 then Some er else last runs1) of
             None \<Rightarrow> out = Panicked NilDereference
           | Some er \<Rightarrow>
               (\<exists>r'. out = Returned r' \<and> Status r' = TestStatusFailed \<and> Error r' = Some er
                  \<and> RetryCount r' = (if a + 1 < M \<and> 0 < M - 1 then M - 1 else RetryCount r1))"
          using both by (rule conjunct2)
        have lastEq: "(if M \<le> a + 1 then Some er else last runs1) = last (err # runs1)"
        proof (cases "M \<le> a + 1")
          case True
          then have "n = 0" by (simp add: n_def)
          with len1 have "runs1 = []" by simp
          with True Some show ?thesis by simp
        next
          case False
          then have "n \<noteq> 0" by (simp add: n_def)
          with len1 have "runs1 \<noteq> []" by auto
          with False show ?thesis by simp
        qed
        have rc: "(if a + 1 < M \<and> 0 < M - 1 then M - 1 else RetryCount r1)
                  = (if a < M \<and> 0 < M - 1 then M - 1 else RetryCount r)"
          using True "1.prems"(2) by (auto simp: r1_def)
        have ge': "\<not> Suc k1 < Suc n" using ge by (simp add: k1_def)
        have s': "lifecycleStarts (ID test) (calls e')
                   = lifecycleStarts (ID test) (calls e) + Suc n"
          using s cnt by simp
        have nle: "\<not> M \<le> a" using True by simp
        show ?thesis
          unfolding runs lastEq[symmetric] rc[symmetric] unfolding nM k
          using ge' s' o nle by (simp only: if_False simp_thms)
      qed
    qed
  qed
qed


lemma failuresBeforeSuccess_all:
  assumes "failuresBeforeSuccess errs = length errs" and "errs \<noteq> []"
  shows "last errs \<noteq> None"
proof -
  have "length (takeWhile (\<lambda>err. err \<noteq> None) errs) + length (dropWhile (\<lambda>err. err \<noteq> None) errs)
          = length errs"
    by (metis length_append takeWhile_dropWhile_id)
  with assms(1) have "dropWhile (\<lambda>err. err \<noteq> None) errs = []"
    by (simp add: failuresBeforeSuccess_def)
  then have "\<forall>x \<in> set errs. x \<noteq> None" by (simp add: dropWhile_eq_Nil_conv)
  with assms(2) show ?thesis using last_in_set by blast
qed

lemma executeTest_runs:
  assumes pos: "0 < sint (maxAttemptsOf ee test)"
  shows
    "if failuresBeforeSuccess (lifecycleRuns ee c test (nat (sint (maxAttemptsOf ee test))) e)
          < nat (sint (maxAttemptsOf ee test))
     then
       attemptsMade ee c test e
         = failuresBeforeSuccess (lifecycleRuns ee c test (nat (sint (maxAttemptsOf ee test))) e) + 1
       \<and> (\<exists>r. fst (executeTest ee c test e) = Returned r \<and> Status r = TestStatusPassed
              \<and> Error r = None
              \<and> RetryCount r
                  = int (failuresBeforeSuccess
                           (lifecycleRuns ee c test (nat (sint (maxAttemptsOf ee test))) e)))
     else
       attemptsMade ee c test e = nat (sint (maxAttemptsOf ee test))
       \<and> (\<exists>r er. fst (executeTest ee c test e) = Returned r \<and> Status r = TestStatusFailed
              \<and> last (lifecycleRuns ee c test (nat (sint (maxAttemptsOf ee test))) e) = Some er
              \<and> Error r = Some er
              \<and> RetryCount r = sint (maxAttemptsOf ee test) - 1)"
proof -
  let ?M = "sint (maxAttemptsOf ee test)"
  let ?r0 = "\<lparr> TestID = ID test, Status = [], Error = None, RetryCount = 0, SkipReason = [] \<rparr>"
  let ?runs = "lifecycleRuns ee c test (nat ?M) e"
  let ?k = "failuresBeforeSuccess ?runs"
  obtain out ee' e' where ex: "executeTest ee c test e = (out, ee', e')"
    by (cases "executeTest ee c test e")
  then have ea: "executeAttempts ee c test ?M 0 ?r0 None e = (out, ee', e')"
    by (simp add: executeTest_def)
  have le: "(0::int) \<le> ?M" using pos by simp
  note gen = executeAttempts_runs[OF ea order_refl le, simplified diff_0_right]
  have am: "attemptsMade ee c test e
              = lifecycleStarts (ID test) (calls e') - lifecycleStarts (ID test) (calls e)"
    using ex by (simp add: attemptsMade_def)
  have kle: "?k \<le> nat ?M" using failuresBeforeSuccess_le[of ?runs] by simp
  show ?thesis
  proof (cases "?k < nat ?M")
    case True
    with gen have both:
      "lifecycleStarts (ID test) (calls e') = lifecycleStarts (ID test) (calls e) + ?k + 1
       \<and> (\<exists>r'. out = Returned r' \<and> Status r' = TestStatusPassed \<and> Error r' = Error ?r0
              \<and> RetryCount r' = (if 0 < 0 + int ?k then 0 + int ?k else RetryCount ?r0))"
      by (simp only: if_True)
    then have a: "attemptsMade ee c test e = ?k + 1" using am by simp
    from both obtain r' where r': "out = Returned r'" "Status r' = TestStatusPassed"
      "Error r' = Error ?r0" "RetryCount r' = (if 0 < 0 + int ?k then 0 + int ?k else RetryCount ?r0)"
      by blast
    have "RetryCount r' = int ?k" using r'(4) by (cases "?k = 0") simp_all
    with r' ex have "\<exists>r. fst (executeTest ee c test e) = Returned r \<and> Status r = TestStatusPassed
              \<and> Error r = None \<and> RetryCount r = int ?k"
      by simp
    with a True show ?thesis by (simp only: if_True simp_thms)
  next
    case False
    with kle have keq: "?k = length ?runs" by simp
    have ne: "?runs \<noteq> []" using pos by (metis length_lifecycleRuns length_0_conv nat_0_iff not_le)
    from failuresBeforeSuccess_all[OF keq ne] obtain er where er: "last ?runs = Some er" by auto
    from gen False have both:
      "lifecycleStarts (ID test) (calls e') = lifecycleStarts (ID test) (calls e) + nat ?M
       \<and> (case (if ?M \<le> 0 then None else last ?runs) of
             None \<Rightarrow> out = Panicked NilDereference
           | Some er \<Rightarrow>
               (\<exists>r'. out = Returned r' \<and> Status r' = TestStatusFailed \<and> Error r' = Some er
                  \<and> RetryCount r' = (if 0 < ?M \<and> 0 < ?M - 1 then ?M - 1 else RetryCount ?r0)))"
      by (simp only: if_False)
    then have a: "attemptsMade ee c test e = nat ?M" using am by simp
    from both er pos obtain r' where r': "out = Returned r'" "Status r' = TestStatusFailed"
      "Error r' = Some er" "RetryCount r' = (if 0 < ?M \<and> 0 < ?M - 1 then ?M - 1 else RetryCount ?r0)"
      by auto
    have "RetryCount r' = ?M - 1" using r'(4) pos by (cases "0 < ?M - 1") auto
    with r' ex er have "\<exists>r er. fst (executeTest ee c test e) = Returned r
              \<and> Status r = TestStatusFailed \<and> last ?runs = Some er
              \<and> Error r = Some er \<and> RetryCount r = ?M - 1"
      by simp
    with a False show ?thesis by (simp only: if_False simp_thms)
  qed
qed

subsection \<open>Plans without dependencies, and the stored task count at 2^31\<close>

lemma NewExecutionPlan_fails_declared_cycle:
  assumes "isl (NewExecutionPlan ts)"
  shows "\<exists>u. (u, u) \<in> (declaredEdges ts)\<^sup>+"
proof -
  from assms obtain u where "(u, u) \<in> (depEdges (buildDependencies ts))\<^sup>+"
    by (auto simp: NewExecutionPlan_fails_iff cyclic_def)
  then have "(u, u) \<in> (declaredEdges ts)\<^sup>+"
    using trancl_mono[OF _ depEdges_subset_declared] by blast
  then show ?thesis ..
qed

lemma no_dependencies_plan_accepted:
  assumes "\<forall>t \<in> set ts. Dependencies t = []"
  shows "\<not> isl (NewExecutionPlan ts)"
proof
  assume "isl (NewExecutionPlan ts)"
  then obtain u where "(u, u) \<in> (declaredEdges ts)\<^sup>+"
    using NewExecutionPlan_fails_declared_cycle by blast
  moreover have "declaredEdges ts = {}" using assms by (auto simp: declaredEdges_def)
  ultimately show False by simp
qed

lemma sint_2_31: "sint (word_of_nat (2 ^ 31) :: 32 word) = - (2 ^ 31)"
  by (simp add: signed_of_nat signed_take_bit_eq_take_bit_shift)

section \<open>Claims\<close>

text \<open>
  C1. For an acyclic task set whose dependency IDs all name tasks of the set,
  \<open>GetExecutionOrder\<close> should return every task, each after its dependencies. The code
  does not: the counter of a task counts the tasks that depend on it, while it is
  decremented when one of its own dependencies is dequeued. For task A without
  dependencies and task B depending on A, B's counter starts at 0, drops to -1 and B
  is never enqueued, so the call returns the "circular dependency detected" error
  although plan construction found no cycle. The chain is the smallest instance of
  lemma \<open>GetExecutionOrder_succeeds_iff_no_dependencies\<close>: on a plan built from tasks
  with distinct IDs the call succeeds exactly when no task declares a dependency.
\<close>

theorem GetExecutionOrder_rejects_chain:
  "map_sum id GetExecutionOrder (NewExecutionPlan chainAB) = Inr (Inl CircularDependencyDetected)
   \<and> distinct (map ID chainAB)"
  by (simp add: chainAB_def plan_eval_defs)

text \<open>
  C8. A teardown error never affects the verdict of an attempt: whenever \<open>Setup\<close> (if
  there is one) and \<open>Execute\<close> return nil, \<open>runTestLifecycle\<close> returns nil whatever
  the \<open>Teardown\<close> hook \<open>td\<close> is and returns, and the attempt ends \<open>executeTest\<close>'s
  loop with status Passed.
\<close>

theorem teardown_error_never_fails_attempt:
  fixes test :: "'w Test"
  assumes setup_ok:
    "case Setup test of None \<Rightarrow> True
       | Some su \<Rightarrow> fst (su (testContext ee c test) (world e)) = None"
  and execute_ok:
    "case Execute test of None \<Rightarrow> False
       | Some ex \<Rightarrow> fst (ex (testContext ee c test) (worldAfterSetup ee c test e)) = None"
  shows "fst (runTestLifecycle ee c (test\<lparr>Teardown := td\<rparr>) e) = None
       \<and> (attempt < maxAttempts \<longrightarrow>
            (\<exists>r ee' e'. executeAttempts ee c (test\<lparr>Teardown := td\<rparr>) maxAttempts attempt
                           result lastErr e = (Returned r, ee', e')
                        \<and> Status r = TestStatusPassed))"
proof -
  let ?t = "test\<lparr>Teardown := td\<rparr>"
  have life: "fst (runTestLifecycle ee' c ?t e) = None" if "config ee' = config ee" for ee'
  proof -
    have tc: "testContext ee' c test = testContext ee c test"
      using that by (simp add: testContext_def)
    have ws: "worldAfterSetup ee' c test e = worldAfterSetup ee c test e"
      using tc by (simp add: worldAfterSetup_def split: option.splits)
    show ?thesis
      using setup_ok execute_ok tc ws
      by (auto simp: runTestLifecycle_error split: option.splits)
  qed
  have first: "fst (runTestLifecycle ee c ?t e) = None"
    by (rule life) simp
  have loop: "\<exists>r ee' e'. executeAttempts ee c ?t maxAttempts attempt result lastErr e
                  = (Returned r, ee', e') \<and> Status r = TestStatusPassed"
    if lt: "attempt < maxAttempts"
  proof -
    let ?ee1 = "if 0 < attempt then ee\<lparr>retryAttempts := retryAttempts ee + 1\<rparr> else ee"
    have "config ?ee1 = config ee" by simp
    then have "fst (runTestLifecycle ?ee1 c ?t e) = None" by (rule life)
    then obtain e1 where "runTestLifecycle ?ee1 c ?t e = (None, e1)"
      by (cases "runTestLifecycle ?ee1 c ?t e") auto
    with lt show ?thesis
      by (subst executeAttempts.simps) (simp add: Let_def)
  qed
  from first loop show ?thesis by blast
qed

theorem teardown_error_never_fails_attempt_witness:
  "(case snd (NewExecutionEngine [tornTest] (Some DefaultRunConfig)) of
      Inl err \<Rightarrow> False
    | Inr ee \<Rightarrow>
        Teardown tornTest = Some (failWith ''teardown broke'')
        \<and> fst (failWith ''teardown broke'' Background ()) \<noteq> None
        \<and> fst (runTestLifecycle ee (ctx ee) tornTest emptyEnv) = None
        \<and> (\<exists>r ee' e'. executeTest ee (ctx ee) tornTest emptyEnv = (Returned r, ee', e')
                     \<and> Status r = TestStatusPassed))"
proof -
  obtain ee where ee: "snd (NewExecutionEngine [tornTest] (Some DefaultRunConfig)) = Inr ee"
    by (simp add: NewExecutionEngine_def tornTest_def plan_eval_defs Let_def)
  have t: "tornTest = (basicTest ''T'' [] succeed)\<lparr>Teardown := Some (failWith ''teardown broke'')\<rparr>"
    by (simp add: tornTest_def)
  have "fst (runTestLifecycle ee (ctx ee) tornTest emptyEnv) = None
       \<and> ((0::int) < 1 \<longrightarrow>
            (\<exists>r ee' e'. executeAttempts ee (ctx ee) tornTest 1 0
                \<lparr> TestID = ID tornTest, Status = [], Error = None, RetryCount = 0, SkipReason = [] \<rparr>
                None emptyEnv = (Returned r, ee', e')
                        \<and> Status r = TestStatusPassed))"
    unfolding t
    by (rule teardown_error_never_fails_attempt) (simp_all add: basicTest_def succeed_def)
  moreover have "sint (maxAttemptsOf ee tornTest) = 1"
    by (simp add: maxAttemptsOf_def tornTest_def basicTest_def)
  moreover have "Teardown tornTest = Some (failWith ''teardown broke'')
        \<and> fst (failWith ''teardown broke'' Background ()) \<noteq> None"
    by (simp add: tornTest_def failWith_def)
  ultimately show ?thesis
    using ee by (simp add: executeTest_def)
qed

text \<open>
  C6. An unknown execution mode should be rejected by \<open>NewExecutionEngine\<close>. It is not:
  construction never reads \<open>Mode\<close>, and a configuration whose mode is "bogus" yields an
  engine.
\<close>

theorem unknown_mode_accepted_by_NewExecutionEngine:
  "Mode bogusConfig \<notin> knownModes
   \<and> \<not> isl (snd (NewExecutionEngine chainAB (Some bogusConfig)))"
  by (simp add: NewExecutionEngine_error_iff knownModes_def mode_defs bogusConfig_def
        DefaultRunConfig_def chainAB_def plan_eval_defs)

text \<open>
  C6, as the code has it. \<open>NewExecutionEngine\<close> fails exactly for an empty task list or
  a failed plan construction, whatever the mode. An engine built with a mode that is none
  of the four is accepted, and every call of \<open>Run\<close> on it returns no results and the
  "unknown execution mode" error naming the mode, with no hook called and the environment
  unchanged.
\<close>

theorem unknown_mode_is_reported_by_Run:
  "(isl (snd (NewExecutionEngine ts cp)) \<longleftrightarrow> ts = [] \<or> isl (NewExecutionPlan ts))
   \<and> (snd (NewExecutionEngine ts (Some cfg)) = Inr ee \<and> Mode cfg \<notin> knownModes \<longrightarrow>
        (\<forall>e out ee' e'.
           Run ee e out ee' e' \<longleftrightarrow>
             out = Returned ([], Some (UnknownExecutionMode (Mode cfg)))
             \<and> ee' = cancel ee \<and> e' = e))"
proof (intro conjI impI allI)
  show "isl (snd (NewExecutionEngine ts cp)) \<longleftrightarrow> ts = [] \<or> isl (NewExecutionPlan ts)"
    by (rule NewExecutionEngine_error_iff)
next
  fix e :: "'a env" and out ee' e'
  assume a: "snd (NewExecutionEngine ts (Some cfg)) = Inr ee \<and> Mode cfg \<notin> knownModes"
  then have "Mode (config ee) = Mode cfg"
    using NewExecutionEngine_config[of ts "Some cfg" ee] by simp
  with a show "Run ee e out ee' e' \<longleftrightarrow>
             out = Returned ([], Some (UnknownExecutionMode (Mode cfg)))
             \<and> ee' = cancel ee \<and> e' = e"
    using Run_unknown_iff[of ee e out ee' e'] by simp
qed

text \<open>The amended C6 at the "bogus" configuration.\<close>

theorem unknown_mode_is_reported_by_Run_witness:
  "Mode bogusConfig \<notin> knownModes
   \<and> (case snd (NewExecutionEngine chainAB (Some bogusConfig)) of
        Inl err \<Rightarrow> False
      | Inr ee \<Rightarrow>
          Run ee emptyEnv (Returned ([], Some (UnknownExecutionMode ''bogus''))) (cancel ee)
            emptyEnv)"
proof -
  have m: "Mode bogusConfig \<notin> knownModes"
    by (simp add: knownModes_def mode_defs bogusConfig_def)
  obtain ee where ee: "snd (NewExecutionEngine chainAB (Some bogusConfig)) = Inr ee"
    using NewExecutionEngine_error_iff[of chainAB "Some bogusConfig"]
    by (cases "snd (NewExecutionEngine chainAB (Some bogusConfig))")
       (auto simp: chainAB_def plan_eval_defs)
  have "Mode bogusConfig = ''bogus''" by (simp add: bogusConfig_def)
  with unknown_mode_is_reported_by_Run[of chainAB "Some bogusConfig" bogusConfig ee] ee m
  show ?thesis by simp
qed

text \<open>
  C3. \<open>executeTest\<close> should make exactly 1 + \<open>MaxRetries\<close> attempts whenever retries
  are enabled. It does not: with retries enabled and \<open>MaxRetries\<close> = 2, a task whose
  \<open>Execute\<close> succeeds at once is attempted once, not three times (the loop returns at
  the first success); and with \<open>MaxRetries\<close> = -1 a failing task is attempted once, not
  zero times (the guard \<open>test.MaxRetries > 0\<close> keeps the budget at 1).
\<close>

theorem executeTest_attempts_not_always_one_plus_MaxRetries:
  "\<not> isl (snd (NewExecutionEngine [steadyTest] (Some retryConfig)))
   \<and> EnableRetry (config (builtEngine [steadyTest] retryConfig))
   \<and> sint (MaxRetries steadyTest) = 2
   \<and> attemptsAlone retryConfig steadyTest = 1
   \<and> \<not> isl (snd (NewExecutionEngine [stubbornTest] (Some retryConfig)))
   \<and> EnableRetry (config (builtEngine [stubbornTest] retryConfig))
   \<and> sint (MaxRetries stubbornTest) = - 1
   \<and> attemptsAlone retryConfig stubbornTest = 1"
  by (simp add: engine_eval_defs steadyTest_def stubbornTest_def attemptsMade_def countingEnv_def
        attemptsAlone_def execute_eval_defs)

text \<open>
  C3, as the code has it. \<open>executeTest\<close> runs the lifecycle until a run returns nil or
  the budget is used up. With retries disabled, or \<open>MaxRetries\<close> at most 0, the budget is
  one attempt: the result is Passed if that run of \<open>runTestLifecycle\<close> returns nil and
  Failed with its error otherwise, with \<open>RetryCount\<close> 0. With retries enabled and
  0 \<le> \<open>MaxRetries\<close> < 2^63 - 1 the budget is 1 + \<open>MaxRetries\<close>: if \<open>k\<close> runs fail
  before the first that succeeds and \<open>k\<close> \<le> \<open>MaxRetries\<close>, exactly \<open>k\<close> + 1 attempts are
  made and the result is Passed with \<open>RetryCount\<close> = \<open>k\<close>; if all 1 + \<open>MaxRetries\<close> runs
  fail, exactly 1 + \<open>MaxRetries\<close> attempts are made and the result is Failed with the
  error of the last run and \<open>RetryCount\<close> = \<open>MaxRetries\<close>. The task whose \<open>Execute\<close> fails
  twice and then succeeds, with \<open>MaxRetries\<close> = 2, ends Passed with \<open>RetryCount\<close> = 2
  after three attempts when retries are enabled, and Failed after one attempt when they
  are disabled.
\<close>

theorem retry_attempt_accounting:
  fixes ee :: "'w ExecutionEngine"
  shows
  "(\<not> EnableRetry (config ee) \<or> sint (MaxRetries test) \<le> 0 \<longrightarrow>
      attemptsMade ee c test e = 1
      \<and> (case fst (executeTest ee c test e) of
            Returned r \<Rightarrow>
              RetryCount r = 0
              \<and> (case fst (runTestLifecycle ee c test e) of
                     None \<Rightarrow> Status r = TestStatusPassed \<and> Error r = None
                   | Some err \<Rightarrow> Status r = TestStatusFailed \<and> Error r = Some err)
          | Panicked err \<Rightarrow> False))
   \<and> (EnableRetry (config ee) \<and> 0 \<le> sint (MaxRetries test)
        \<and> sint (MaxRetries test) < 2 ^ 63 - 1 \<longrightarrow>
      1 \<le> attemptsMade ee c test e
      \<and> int (attemptsMade ee c test e) \<le> 1 + sint (MaxRetries test)
      \<and> (let runs = lifecycleRuns ee c test (nat (1 + sint (MaxRetries test))) e;
              k = failuresBeforeSuccess runs
          in case fst (executeTest ee c test e) of
               Returned r \<Rightarrow>
                 (if int k \<le> sint (MaxRetries test)
                  then attemptsMade ee c test e = k + 1
                       \<and> Status r = TestStatusPassed \<and> RetryCount r = int k \<and> Error r = None
                  else int (attemptsMade ee c test e) = 1 + sint (MaxRetries test)
                       \<and> Status r = TestStatusFailed \<and> RetryCount r = sint (MaxRetries test)
                       \<and> Error r = last runs \<and> Error r \<noteq> None)
             | Panicked err \<Rightarrow> False))
   \<and> (case executeAlone retryConfig flakyTest of
         Returned r \<Rightarrow> Status r = TestStatusPassed \<and> RetryCount r = 2
       | Panicked err \<Rightarrow> False)
   \<and> attemptsAlone retryConfig flakyTest = 3
   \<and> (case executeAlone noRetryConfig flakyTest of
         Returned r \<Rightarrow> Status r = TestStatusFailed
       | Panicked err \<Rightarrow> False)
   \<and> attemptsAlone noRetryConfig flakyTest = 1"
proof (intro conjI impI)
  {
    assume a: "\<not> EnableRetry (config ee) \<or> sint (MaxRetries test) \<le> 0"
    then have m: "sint (maxAttemptsOf ee test) = 1" by (rule sint_maxAttemptsOf(1))
    have runs: "lifecycleRuns ee c test (nat 1) e = [fst (runTestLifecycle ee c test e)]"
      by simp
    have pos: "0 < sint (maxAttemptsOf ee test)" using m by simp
    note g = executeTest_runs[OF pos, of c e, unfolded m runs]
    show "attemptsMade ee c test e = 1"
      using g by (cases "fst (runTestLifecycle ee c test e)") (simp_all split: if_splits)
    show "case fst (executeTest ee c test e) of
            Returned r \<Rightarrow>
              RetryCount r = 0
              \<and> (case fst (runTestLifecycle ee c test e) of
                     None \<Rightarrow> Status r = TestStatusPassed \<and> Error r = None
                   | Some err \<Rightarrow> Status r = TestStatusFailed \<and> Error r = Some err)
          | Panicked err \<Rightarrow> False"
      using g by (cases "fst (runTestLifecycle ee c test e)") (auto split: if_splits)
  }
  {
    assume a: "EnableRetry (config ee) \<and> 0 \<le> sint (MaxRetries test)
        \<and> sint (MaxRetries test) < 2 ^ 63 - 1"
    then have m: "sint (maxAttemptsOf ee test) = 1 + sint (MaxRetries test)"
      using sint_maxAttemptsOf(2)[of ee test] by simp
    have pos: "0 < sint (maxAttemptsOf ee test)" using m a by simp
    let ?runs = "lifecycleRuns ee c test (nat (1 + sint (MaxRetries test))) e"
    let ?k = "failuresBeforeSuccess ?runs"
    note g = executeTest_runs[OF pos, of c e, unfolded m]
    have kle: "?k \<le> nat (1 + sint (MaxRetries test))"
      using failuresBeforeSuccess_le[of ?runs] by simp
    have iff: "?k < nat (1 + sint (MaxRetries test)) \<longleftrightarrow> int ?k \<le> sint (MaxRetries test)"
      using a by auto
    from a have a0: "0 \<le> sint (MaxRetries test)" by simp
    then have n1: "1 \<le> nat (1 + sint (MaxRetries test))"
      and n2: "int (nat (1 + sint (MaxRetries test))) = 1 + sint (MaxRetries test)" by simp_all
    show "1 \<le> attemptsMade ee c test e"
      using g n1 by (cases "?k < nat (1 + sint (MaxRetries test))") simp_all
    show "int (attemptsMade ee c test e) \<le> 1 + sint (MaxRetries test)"
      using g n2 by (cases "?k < nat (1 + sint (MaxRetries test))") auto
    show "let runs = ?runs; k = failuresBeforeSuccess runs
          in case fst (executeTest ee c test e) of
               Returned r \<Rightarrow>
                 (if int k \<le> sint (MaxRetries test)
                  then attemptsMade ee c test e = k + 1
                       \<and> Status r = TestStatusPassed \<and> RetryCount r = int k \<and> Error r = None
                  else int (attemptsMade ee c test e) = 1 + sint (MaxRetries test)
                       \<and> Status r = TestStatusFailed \<and> RetryCount r = sint (MaxRetries test)
                       \<and> Error r = last runs \<and> Error r \<noteq> None)
             | Panicked err \<Rightarrow> False"
      unfolding Let_def
    proof (cases "?k < nat (1 + sint (MaxRetries test))")
      case True
      with g have "attemptsMade ee c test e = ?k + 1
         \<and> (\<exists>r. fst (executeTest ee c test e) = Returned r \<and> Status r = TestStatusPassed
              \<and> Error r = None \<and> RetryCount r = int ?k)"
        by (simp only: if_True)
      with True iff show "case fst (executeTest ee c test e) of
               Returned r \<Rightarrow>
                 (if int ?k \<le> sint (MaxRetries test)
                  then attemptsMade ee c test e = ?k + 1
                       \<and> Status r = TestStatusPassed \<and> RetryCount r = int ?k \<and> Error r = None
                  else int (attemptsMade ee c test e) = 1 + sint (MaxRetries test)
                       \<and> Status r = TestStatusFailed \<and> RetryCount r = sint (MaxRetries test)
                       \<and> Error r = last ?runs \<and> Error r \<noteq> None)
             | Panicked err \<Rightarrow> False"
        by auto
    next
      case False
      with g have "attemptsMade ee c test e = nat (1 + sint (MaxRetries test))
         \<and> (\<exists>r er. fst (executeTest ee c test e) = Returned r \<and> Status r = TestStatusFailed
              \<and> last ?runs = Some er \<and> Error r = Some er
              \<and> RetryCount r = 1 + sint (MaxRetries test) - 1)"
        by (simp only: if_False)
      with False iff a show "case fst (executeTest ee c test e) of
               Returned r \<Rightarrow>
                 (if int ?k \<le> sint (MaxRetries test)
                  then attemptsMade ee c test e = ?k + 1
                       \<and> Status r = TestStatusPassed \<and> RetryCount r = int ?k \<and> Error r = None
                  else int (attemptsMade ee c test e) = 1 + sint (MaxRetries test)
                       \<and> Status r = TestStatusFailed \<and> RetryCount r = sint (MaxRetries test)
                       \<and> Error r = last ?runs \<and> Error r \<noteq> None)
             | Panicked err \<Rightarrow> False"
        by auto
    qed
  }
  show "case executeAlone retryConfig flakyTest of
         Returned r \<Rightarrow> Status r = TestStatusPassed \<and> RetryCount r = 2
       | Panicked err \<Rightarrow> False"
    by (simp add: executeAlone_def engine_eval_defs flakyTest_def failTwice_def countingEnv_def
          execute_eval_defs)
  show "attemptsAlone retryConfig flakyTest = 3"
    by (simp add: attemptsAlone_def attemptsMade_def engine_eval_defs flakyTest_def failTwice_def
          countingEnv_def execute_eval_defs)
  show "case executeAlone noRetryConfig flakyTest of
         Returned r \<Rightarrow> Status r = TestStatusFailed
       | Panicked err \<Rightarrow> False"
    by (simp add: executeAlone_def engine_eval_defs flakyTest_def failTwice_def countingEnv_def
          execute_eval_defs)
  show "attemptsAlone noRetryConfig flakyTest = 1"
    by (simp add: attemptsAlone_def attemptsMade_def engine_eval_defs flakyTest_def failTwice_def
          countingEnv_def execute_eval_defs)
qed

text \<open>
  The amended C3 with retries enabled at the flaky task (two failures, then Passed at the
  third attempt) and at a task that always fails (Failed after exactly three attempts),
  and with retries disabled at the flaky task (Failed after one attempt).
\<close>

theorem retry_attempt_accounting_witness:
  "EnableRetry (config (builtEngine [flakyTest] retryConfig))
   \<and> 0 \<le> sint (MaxRetries flakyTest) \<and> sint (MaxRetries flakyTest) < 2 ^ 63 - 1
   \<and> failuresBeforeSuccess
         (lifecycleRuns (builtEngine [flakyTest] retryConfig)
            (ctx (builtEngine [flakyTest] retryConfig)) flakyTest 3 countingEnv) = 2
   \<and> attemptsAlone retryConfig flakyTest = 3
   \<and> (case executeAlone retryConfig flakyTest of
         Returned r \<Rightarrow> Status r = TestStatusPassed \<and> RetryCount r = 2 \<and> Error r = None
       | Panicked err \<Rightarrow> False)
   \<and> EnableRetry (config (builtEngine [hopelessTest] retryConfig))
   \<and> 0 \<le> sint (MaxRetries hopelessTest) \<and> sint (MaxRetries hopelessTest) < 2 ^ 63 - 1
   \<and> failuresBeforeSuccess
         (lifecycleRuns (builtEngine [hopelessTest] retryConfig)
            (ctx (builtEngine [hopelessTest] retryConfig)) hopelessTest 3 countingEnv) = 3
   \<and> attemptsAlone retryConfig hopelessTest = 3
   \<and> (case executeAlone retryConfig hopelessTest of
         Returned r \<Rightarrow>
           Status r = TestStatusFailed \<and> RetryCount r = 2
           \<and> Error r = Some (ExecuteFailed (CallbackError ''never''))
       | Panicked err \<Rightarrow> False)
   \<and> \<not> EnableRetry (config (builtEngine [flakyTest] noRetryConfig))
   \<and> attemptsAlone noRetryConfig flakyTest = 1
   \<and> (case executeAlone noRetryConfig flakyTest of
         Returned r \<Rightarrow>
           Status r = TestStatusFailed \<and> RetryCount r = 0
           \<and> Error r = Some (ExecuteFailed (CallbackError ''not yet''))
       | Panicked err \<Rightarrow> False)"
proof -
  let ?ef = "builtEngine [flakyTest] retryConfig"
  let ?eh = "builtEngine [hopelessTest] retryConfig"
  let ?en = "builtEngine [flakyTest] noRetryConfig"
  have three: "nat (1 + 2) = Suc (Suc (Suc 0))" by simp
  have a: "EnableRetry (config ?ef)
     \<and> 0 \<le> sint (MaxRetries flakyTest) \<and> sint (MaxRetries flakyTest) < 2 ^ 63 - 1"
    by (simp add: engine_eval_defs flakyTest_def)
  have mf: "sint (MaxRetries flakyTest) = 2" by (simp add: flakyTest_def basicTest_def)
  have kf: "failuresBeforeSuccess (lifecycleRuns ?ef (ctx ?ef) flakyTest 3 countingEnv) = 2"
    by (simp add: numeral_3_eq_3 engine_eval_defs flakyTest_def failTwice_def countingEnv_def
          execute_eval_defs)
  have h: "EnableRetry (config ?eh)
     \<and> 0 \<le> sint (MaxRetries hopelessTest) \<and> sint (MaxRetries hopelessTest) < 2 ^ 63 - 1"
    by (simp add: engine_eval_defs hopelessTest_def)
  have mh: "sint (MaxRetries hopelessTest) = 2" by (simp add: hopelessTest_def basicTest_def)
  have kh: "failuresBeforeSuccess (lifecycleRuns ?eh (ctx ?eh) hopelessTest 3 countingEnv) = 3"
    by (simp add: numeral_3_eq_3 engine_eval_defs hopelessTest_def countingEnv_def
          execute_eval_defs)
  have lh: "last (lifecycleRuns ?eh (ctx ?eh) hopelessTest 3 countingEnv)
              = Some (ExecuteFailed (CallbackError ''never''))"
    by (simp add: numeral_3_eq_3 engine_eval_defs hopelessTest_def countingEnv_def
          execute_eval_defs)
  have b: "\<not> EnableRetry (config ?en)"
    by (simp add: engine_eval_defs flakyTest_def)
  have ln: "fst (runTestLifecycle ?en (ctx ?en) flakyTest countingEnv)
              = Some (ExecuteFailed (CallbackError ''not yet''))"
    by (simp add: engine_eval_defs flakyTest_def failTwice_def countingEnv_def execute_eval_defs)
  have n3: "nat (1 + 2) = 3" by simp
  note tf = retry_attempt_accounting[of ?ef flakyTest "ctx ?ef" countingEnv,
              THEN conjunct2, THEN conjunct1, rule_format, OF a, unfolded mf n3 Let_def kf]
  note th = retry_attempt_accounting[of ?eh hopelessTest "ctx ?eh" countingEnv,
              THEN conjunct2, THEN conjunct1, rule_format, OF h, unfolded mh n3 Let_def kh lh]
  note tn = retry_attempt_accounting[of ?en flakyTest "ctx ?en" countingEnv,
              THEN conjunct1, rule_format, OF disjI1, OF b, unfolded ln]
  have 1: "attemptsAlone retryConfig flakyTest = 3
     \<and> (case executeAlone retryConfig flakyTest of
         Returned r \<Rightarrow> Status r = TestStatusPassed \<and> RetryCount r = 2 \<and> Error r = None
       | Panicked err \<Rightarrow> False)"
    using tf unfolding attemptsAlone_def executeAlone_def
    by (auto split: outcome.splits)
  have 2: "attemptsAlone retryConfig hopelessTest = 3
     \<and> (case executeAlone retryConfig hopelessTest of
         Returned r \<Rightarrow>
           Status r = TestStatusFailed \<and> RetryCount r = 2
           \<and> Error r = Some (ExecuteFailed (CallbackError ''never''))
       | Panicked err \<Rightarrow> False)"
    using th unfolding attemptsAlone_def executeAlone_def
    by (auto split: outcome.splits)
  have 3: "attemptsAlone noRetryConfig flakyTest = 1
     \<and> (case executeAlone noRetryConfig flakyTest of
         Returned r \<Rightarrow>
           Status r = TestStatusFailed \<and> RetryCount r = 0
           \<and> Error r = Some (ExecuteFailed (CallbackError ''not yet''))
       | Panicked err \<Rightarrow> False)"
    using tn unfolding attemptsAlone_def executeAlone_def
    by (auto split: outcome.splits)
  from a kf 1 h kh 2 b 3 show ?thesis by (simp only: simp_thms)
qed

text \<open>
  C7. The engine should never change the caller's \<open>RunConfig\<close>. It does: the clamp of
  \<open>MaxWorkers\<close> is written through the pointer, so a caller's struct with
  \<open>MaxWorkers\<close> = 0 holds 1 after \<open>NewExecutionEngine\<close> returns.
\<close>

theorem NewExecutionEngine_writes_caller_config:
  "MaxWorkers zeroWorkersConfig = 0
   \<and> \<not> isl (snd (NewExecutionEngine soloA (Some zeroWorkersConfig)))
   \<and> fst (NewExecutionEngine soloA (Some zeroWorkersConfig))
       = Some (zeroWorkersConfig\<lparr>MaxWorkers := 1\<rparr>)
   \<and> fst (NewExecutionEngine soloA (Some zeroWorkersConfig)) \<noteq> Some zeroWorkersConfig"
  by (simp add: soloA_def zeroWorkersConfig_def engine_eval_defs word_sless_alt)

text \<open>
  C7, as the code has it. After \<open>NewExecutionEngine\<close> the caller's struct is its old
  value with \<open>MaxWorkers\<close> clamped into [1, 100] (untouched for an empty task list): no
  other field changes, and a value within range is left as it is. The engine holds the
  task list it was given, and no call of \<open>Run\<close>, in any mode and with any outcome,
  changes the task list or the configuration.
\<close>

theorem engine_writes_only_MaxWorkers:
  "fst (NewExecutionEngine ts cp) = (if ts = [] then cp else map_option capMaxWorkers cp)
   \<and> capMaxWorkers c =
       c\<lparr>MaxWorkers := (if sint (MaxWorkers c) < 1 then 1
                        else if 100 < sint (MaxWorkers c) then 100 else MaxWorkers c)\<rparr>
   \<and> (1 \<le> sint (MaxWorkers c) \<and> sint (MaxWorkers c) \<le> 100 \<longrightarrow> capMaxWorkers c = c)
   \<and> (snd (NewExecutionEngine ts cp) = Inr ee \<longrightarrow>
        tests ee = ts \<and> planTests (plan ee) = ts
        \<and> (cp \<noteq> None \<longrightarrow> fst (NewExecutionEngine ts cp) = Some (config ee))
        \<and> (\<forall>e out ee' e'.
              Run ee e out ee' e' \<longrightarrow>
                tests ee' = ts \<and> planTests (plan ee') = ts \<and> config ee' = config ee))"
proof (intro conjI impI allI)
  show "fst (NewExecutionEngine ts cp) = (if ts = [] then cp else map_option capMaxWorkers cp)"
    by (rule NewExecutionEngine_caller_config)
  show "capMaxWorkers c =
       c\<lparr>MaxWorkers := (if sint (MaxWorkers c) < 1 then 1
                        else if 100 < sint (MaxWorkers c) then 100 else MaxWorkers c)\<rparr>"
    by (rule capMaxWorkers_eq)
  show "capMaxWorkers c = c" if "1 \<le> sint (MaxWorkers c) \<and> sint (MaxWorkers c) \<le> 100"
    using that by (simp add: capMaxWorkers_eq)
next
  assume built: "snd (NewExecutionEngine ts cp) = Inr ee"
  show t: "tests ee = ts" and pt: "planTests (plan ee) = ts"
    using NewExecutionEngine_fields[OF built] by simp_all
  show "fst (NewExecutionEngine ts cp) = Some (config ee)" if "cp \<noteq> None"
    using that built NewExecutionEngine_config[OF built] NewExecutionEngine_fields(5)[OF built]
    by (cases cp) (simp_all add: NewExecutionEngine_caller_config)
  fix e :: "'a env" and out ee' e'
  assume "Run ee e out ee' e'"
  then have "sameInputs ee ee'" by (rule sameInputs_Run)
  with t pt show "tests ee' = ts" "planTests (plan ee') = ts" "config ee' = config ee"
    by (simp_all add: sameInputs_def)
qed

text \<open>The amended C7 on the one-task set, run in sequential mode, and on the default
  configuration.\<close>

theorem engine_writes_only_MaxWorkers_witness:
  "snd (NewExecutionEngine soloA (Some zeroWorkersConfig))
     = Inr (builtEngine soloA zeroWorkersConfig)
   \<and> Run (builtEngine soloA zeroWorkersConfig) emptyEnv (Returned ([passedA], None))
       (cancel (markTestCompleted ''A''
                 (recordResult passedA (builtEngine soloA zeroWorkersConfig))))
       \<lparr> world = (), calls = [LifecycleStarted ''A'', ExecuteCalled ''A''] \<rparr>
   \<and> tests (cancel (markTestCompleted ''A''
                 (recordResult passedA (builtEngine soloA zeroWorkersConfig)))) = soloA
   \<and> config (cancel (markTestCompleted ''A''
                 (recordResult passedA (builtEngine soloA zeroWorkersConfig))))
       = zeroWorkersConfig\<lparr>MaxWorkers := 1\<rparr>
   \<and> 1 \<le> sint (MaxWorkers DefaultRunConfig) \<and> sint (MaxWorkers DefaultRunConfig) \<le> 100
   \<and> capMaxWorkers DefaultRunConfig = DefaultRunConfig"
proof -
  have r: "1 \<le> sint (MaxWorkers DefaultRunConfig) \<and> sint (MaxWorkers DefaultRunConfig) \<le> 100"
    by (simp add: DefaultRunConfig_def)
  have c: "config (builtEngine soloA zeroWorkersConfig) = zeroWorkersConfig\<lparr>MaxWorkers := 1\<rparr>"
    by (simp add: soloA_def zeroWorkersConfig_def engine_eval_defs word_sless_alt)
  from engine_writes_only_MaxWorkers[of soloA "Some zeroWorkersConfig" DefaultRunConfig
        "builtEngine soloA zeroWorkersConfig"]
    soloA_built(1) soloA_Run r c
  show ?thesis by (simp del: Run.simps) blast
qed

text \<open>
  C9. \<open>GetMetrics().Total\<close> should always be the number of tasks given to
  \<open>NewExecutionEngine\<close>. The count is stored as \<open>int32(len(tests))\<close>, which keeps the low
  32 bits: for a list of 2^31 tasks the engine is built and \<open>Total\<close> is -2^31.
\<close>

theorem metrics_total_wraps_at_2_31_tasks:
  "length manyTasks = 2 ^ 31
   \<and> \<not> isl (snd (NewExecutionEngine manyTasks (Some retryConfig)))
   \<and> sint (Total (GetMetrics (builtEngine manyTasks retryConfig))) = - (2 ^ 31)"
proof (intro conjI)
  show len: "length manyTasks = 2 ^ 31" by (simp add: manyTasks_def)
  then have ne: "manyTasks \<noteq> []" by auto
  have "\<forall>t \<in> set manyTasks. Dependencies t = []"
    by (simp add: manyTasks_def basicTest_def)
  then have "\<not> isl (NewExecutionPlan manyTasks)" by (rule no_dependencies_plan_accepted)
  with ne show ok: "\<not> isl (snd (NewExecutionEngine manyTasks (Some retryConfig)))"
    by (simp add: NewExecutionEngine_error_iff)
  then obtain ee where ee: "snd (NewExecutionEngine manyTasks (Some retryConfig)) = Inr ee"
    by (cases "snd (NewExecutionEngine manyTasks (Some retryConfig))") auto
  then have b: "builtEngine manyTasks retryConfig = ee" by (simp add: builtEngine_def)
  from NewExecutionEngine_fields(3)[OF ee] len
  have "totalTests ee = word_of_nat (2 ^ 31)" by simp
  then show "sint (Total (GetMetrics (builtEngine manyTasks retryConfig))) = - (2 ^ 31)"
    unfolding b GetMetrics_def using sint_2_31 by simp
qed

text \<open>
  C9, as the code has it. \<open>GetMetrics().Total\<close> is \<open>int32(len(tests))\<close> for the list given
  to \<open>NewExecutionEngine\<close>: right after construction, after every \<open>Run\<close>, in every state
  a parallel run passes through and after every stretch of the sequential and fail-fast
  loops. It is the number of tasks itself for fewer than 2^31 tasks. Calling
  \<open>GetMetrics\<close> a second time returns the same five counts and leaves the same engine.
\<close>

theorem metrics_total_is_task_count:
  "(snd (NewExecutionEngine ts cp) = Inr ee \<longrightarrow>
      Total (GetMetrics ee) = word_of_nat (length ts)
      \<and> (length ts < 2 ^ 31 \<longrightarrow> sint (Total (GetMetrics ee)) = int (length ts))
      \<and> (\<forall>e out ee' e'.
            Run ee e out ee' e' \<longrightarrow> Total (GetMetrics ee') = word_of_nat (length ts))
      \<and> (\<forall>e s. rtranclp parStep (parInit ee e) s \<longrightarrow>
                  Total (GetMetrics (eng s)) = word_of_nat (length ts))
      \<and> (\<forall>order e out ee' e'.
            sequentialLoop order ee e = (out, ee', e') \<longrightarrow>
              Total (GetMetrics ee') = word_of_nat (length ts))
      \<and> (\<forall>order e out ee' e'.
            failFastLoop order ee e out ee' e' \<longrightarrow>
              Total (GetMetrics ee') = word_of_nat (length ts)))
   \<and> callGetMetrics (snd (callGetMetrics ee)) = callGetMetrics ee"
proof (intro conjI impI allI)
  show "callGetMetrics (snd (callGetMetrics ee)) = callGetMetrics ee"
    by (simp add: callGetMetrics_def)
next
  assume built: "snd (NewExecutionEngine ts cp) = Inr ee"
  have tot: "totalTests ee = word_of_nat (length ts)"
    using NewExecutionEngine_fields(3)[OF built] .
  then show "Total (GetMetrics ee) = word_of_nat (length ts)"
    by (simp add: GetMetrics_def)
  show "sint (Total (GetMetrics ee)) = int (length ts)" if "length ts < 2 ^ 31"
    using that tot by (simp add: GetMetrics_def sint_word_of_nat_32)
  {
    fix e :: "'a env" and out ee' e'
    assume "Run ee e out ee' e'"
    then have "sameInputs ee ee'" by (rule sameInputs_Run)
    with tot show "Total (GetMetrics ee') = word_of_nat (length ts)"
      by (simp add: sameInputs_def GetMetrics_def)
  }
  {
    fix e :: "'a env" and s
    assume "rtranclp parStep (parInit ee e) s"
    then have "sameInputs (eng (parInit ee e)) (eng s)" by (rule sameInputs_parSteps)
    with tot show "Total (GetMetrics (eng s)) = word_of_nat (length ts)"
      by (simp add: sameInputs_def GetMetrics_def parInit_def)
  }
  {
    fix order and e :: "'a env" and out ee' e'
    assume "sequentialLoop order ee e = (out, ee', e')"
    then have "sameInputs ee ee'" by (rule sameInputs_sequentialLoop)
    with tot show "Total (GetMetrics ee') = word_of_nat (length ts)"
      by (simp add: sameInputs_def GetMetrics_def)
  }
  {
    fix order and e :: "'a env" and out ee' e'
    assume "failFastLoop order ee e out ee' e'"
    then have "sameInputs ee ee'" by (rule sameInputs_failFastLoop)
    with tot show "Total (GetMetrics ee') = word_of_nat (length ts)"
      by (simp add: sameInputs_def GetMetrics_def)
  }
qed

text \<open>C9 on the one-task set, before and after a sequential run.\<close>

theorem metrics_total_is_task_count_witness:
  "snd (NewExecutionEngine soloA (Some zeroWorkersConfig))
     = Inr (builtEngine soloA zeroWorkersConfig)
   \<and> length soloA < 2 ^ 31
   \<and> Total (GetMetrics (builtEngine soloA zeroWorkersConfig)) = 1
   \<and> sint (Total (GetMetrics (builtEngine soloA zeroWorkersConfig))) = 1
   \<and> Run (builtEngine soloA zeroWorkersConfig) emptyEnv (Returned ([passedA], None))
       (cancel (markTestCompleted ''A''
                 (recordResult passedA (builtEngine soloA zeroWorkersConfig))))
       \<lparr> world = (), calls = [LifecycleStarted ''A'', ExecuteCalled ''A''] \<rparr>
   \<and> Total (GetMetrics (cancel (markTestCompleted ''A''
                 (recordResult passedA (builtEngine soloA zeroWorkersConfig))))) = 1"
proof -
  have l: "length soloA = 1" by (simp add: soloA_def)
  from metrics_total_is_task_count[of soloA "Some zeroWorkersConfig"
        "builtEngine soloA zeroWorkersConfig"]
    soloA_built(1) soloA_Run l
  show ?thesis by (simp del: Run.simps) blast
qed

text \<open>
  C2. In a sequential run where A has no dependencies and fails and B depends on A, B
  should get a Skipped result with reason "dependencies failed" and its \<open>Execute\<close>
  should not be called. The loop of \<open>runSequential\<close> does exactly that when it is handed
  the order A, B (last two conjuncts), but it never is: \<open>GetExecutionOrder\<close> rejects
  the chain (see C1), so the run returns no results at all and the "circular dependency
  detected" error, and B has no result.
\<close>

theorem sequential_run_of_failing_chain_returns_order_error:
  "snd (NewExecutionEngine failingChain (Some retryConfig))
     = Inr (builtEngine failingChain retryConfig)
   \<and> Mode (config (builtEngine failingChain retryConfig)) = ExecutionModeSequential
   \<and> runSequential (builtEngine failingChain retryConfig) emptyEnv
       = (Returned ([], Some CircularDependencyDetected),
          builtEngine failingChain retryConfig, emptyEnv)
   \<and> Run (builtEngine failingChain retryConfig) emptyEnv
         (Returned ([], Some CircularDependencyDetected))
         (cancel (builtEngine failingChain retryConfig)) emptyEnv
   \<and> results (cancel (builtEngine failingChain retryConfig)) = []
   \<and> results (fst (snd (sequentialLoop failingChain
                           (builtEngine failingChain retryConfig) emptyEnv)))
       = [failedA, skippedB]
   \<and> calls (snd (snd (sequentialLoop failingChain
                         (builtEngine failingChain retryConfig) emptyEnv)))
       = [LifecycleStarted ''A'', ExecuteCalled ''A'']"
proof -
  have built: "snd (NewExecutionEngine failingChain (Some retryConfig))
     = Inr (builtEngine failingChain retryConfig)"
    by (simp add: chain_eval_defs engine_eval_defs)
  have mode: "Mode (config (builtEngine failingChain retryConfig)) = ExecutionModeSequential"
    by (simp add: chain_eval_defs engine_eval_defs)
  have order: "GetExecutionOrder (plan (builtEngine failingChain retryConfig))
                 = Inl CircularDependencyDetected"
    by (simp add: chain_eval_defs engine_eval_defs)
  have run: "runSequential (builtEngine failingChain retryConfig) emptyEnv
       = (Returned ([], Some CircularDependencyDetected),
          builtEngine failingChain retryConfig, emptyEnv)"
    using order by (simp add: runSequential_def)
  have Run: "Run (builtEngine failingChain retryConfig) emptyEnv
         (Returned ([], Some CircularDependencyDetected))
         (cancel (builtEngine failingChain retryConfig)) emptyEnv"
    by (rule Run_sequential[OF mode run])
  have res: "results (cancel (builtEngine failingChain retryConfig)) = []"
    by (simp add: cancel_def chain_eval_defs engine_eval_defs)
  have loop: "results (fst (snd (sequentialLoop failingChain
                           (builtEngine failingChain retryConfig) emptyEnv)))
       = [failedA, skippedB]
   \<and> calls (snd (snd (sequentialLoop failingChain
                         (builtEngine failingChain retryConfig) emptyEnv)))
       = [LifecycleStarted ''A'', ExecuteCalled ''A'']"
    by (simp add: chain_eval_defs engine_eval_defs execute_eval_defs)
  from built mode run Run res loop show ?thesis by (simp del: Run.simps)
qed

text \<open>
  C5. Whenever \<open>Run\<close> returns its results without an error, every submitted task should
  have a result with a terminal status. In parallel mode it need not: with A failing and B
  depending on A, the dispatcher sends A, a worker records A as Failed, B never becomes
  ready and is never sent; once the deadline of the run context passes, the dispatcher
  returns, the channel is closed, the worker leaves and \<open>Run\<close> returns the single
  result of A with a nil error. B has no result, not even a Skipped one. (Lemma
  \<open>parallel_runs_never_record_B\<close>: no run of this input ever records B.)
\<close>

theorem parallel_run_omits_dependent_of_failed_task:
  "snd (NewExecutionEngine failingChain (Some parallelConfig))
     = Inr (builtEngine failingChain parallelConfig)
   \<and> Mode (config (builtEngine failingChain parallelConfig)) = ExecutionModeParallel
   \<and> (\<exists>ee'. Run (builtEngine failingChain parallelConfig) emptyEnv
                (Returned ([failedA], None)) ee' afterA
             \<and> results ee' = [failedA])
   \<and> map ID failingChain = [''A'', ''B'']
   \<and> map TestID [failedA] = [''A'']"
proof -
  let ?E = "builtEngine failingChain parallelConfig"
  note f = parallelEngine_fields
  define s0 where "s0 = parInit ?E emptyEnv"
  define s1 where "s1 = s0\<lparr>dispatched := {''A''}, eng := (eng s0)\<lparr>workChan := [failingA]\<rparr>\<rparr>"
  define s2 where "s2 = s1\<lparr>eng := workerRecord failingA failedA ((eng s1)\<lparr>workChan := []\<rparr>),
                           envir := afterA\<rparr>"
  define s3 where "s3 = s2\<lparr>eng := (eng s2)\<lparr>ctxDone := True\<rparr>\<rparr>"
  define s4 where "s4 = s3\<lparr>dispatcherDone := True, eng := (eng s3)\<lparr>workChanClosed := True\<rparr>\<rparr>"
  define s5 where "s5 = s4\<lparr>activeWorkers := activeWorkers s4 - 1\<rparr>"
  have mw: "MaxWorkers (config ?E) = 1"
    unfolding f by (simp add: parallelConfig_def)
  have workers: "activeWorkers s0 = 1"
    by (simp add: s0_def parInit_def mw)
  have plan0: "plan (eng s0) = \<lparr> planTests = failingChain,
         dependencies = [(''A'', []), (''B'', [''A''])], completed = {}, failed = {} \<rparr>"
    by (simp add: s0_def parInit_def f)
  have ready0: "GetReadyTests (plan (eng s0)) = [failingA]"
    unfolding plan0
    by (simp add: GetReadyTests_def allDepsSatisfied_def chain_eval_defs basicTest_def)
  have step1: "parStep s0 s1"
    unfolding s1_def
    by (rule dispatcher_send)
       (simp_all add: ready0, simp_all add: s0_def parInit_def f,
        simp_all add: failingA_def basicTest_def)
  have step2: "parStep s1 s2"
    unfolding s2_def
    by (rule worker_execute[where rest = "[]"])
       (simp_all add: executeTest_failingA afterA_def,
        simp_all add: s1_def s0_def parInit_def f shouldRunTest_def,
        simp_all add: failingA_def basicTest_def emptyEnv_def parallelConfig_def)
  have step3: "parStep s2 s3"
    unfolding s3_def
    by (rule deadline)
       (simp_all add: s2_def s1_def s0_def parInit_def f workerRecord_def failedA_def
          status_defs recordResult_def markTestFailed_def MarkFailed_def Let_def)
  have step4: "parStep s3 s4"
    unfolding s4_def
    by (rule dispatcher_cancelled)
       (simp_all add: s3_def s2_def s1_def s0_def parInit_def)
  have step5: "parStep s4 s5"
    unfolding s5_def
    by (rule worker_exit)
       (simp_all add: s4_def s3_def s2_def s1_def s0_def parInit_def f
          workerRecord_def failedA_def status_defs recordResult_def markTestFailed_def
          MarkFailed_def Let_def, simp_all add: parallelConfig_def)
  have reach: "rtranclp parStep (parInit ?E emptyEnv) s5"
    using step1 step2 step3 step4 step5 unfolding s0_def
    by (meson rtranclp.rtrancl_into_rtrancl rtranclp.rtrancl_refl)
  have fin: "panicked s5 = None" "activeWorkers s5 = 0" "envir s5 = afterA"
    using workers
    by (simp_all add: s5_def s4_def s3_def s2_def s1_def s0_def parInit_def)
  have res: "results (eng s5) = [failedA]"
    by (simp add: s5_def s4_def s3_def s2_def s1_def s0_def parInit_def f workerRecord_def
          failedA_def status_defs recordResult_def markTestFailed_def MarkFailed_def Let_def)
  have "runParallel ?E emptyEnv (Returned (results (eng s5), None)) (eng s5) (envir s5)"
    using reach fin(1,2) by (rule parallel_return)
  then have par: "runParallel ?E emptyEnv (Returned ([failedA], None)) (eng s5) afterA"
    using res fin(3) by simp
  have mode: "Mode (config ?E) = ExecutionModeParallel"
    unfolding f by (simp add: parallelConfig_def DefaultRunConfig_def)
  have "Run ?E emptyEnv (Returned ([failedA], None)) (cancel (eng s5)) afterA"
    using mode par by (rule Run_parallel)
  moreover have "results (cancel (eng s5)) = [failedA]"
    using res by (simp add: cancel_def)
  ultimately have "\<exists>ee'. Run ?E emptyEnv (Returned ([failedA], None)) ee' afterA
             \<and> results ee' = [failedA]"
    by blast
  moreover have "map ID failingChain = [''A'', ''B'']" "map TestID [failedA] = [''A'']"
    by (simp_all add: chain_eval_defs basicTest_def)
  ultimately show ?thesis
    using f(1) mode by (simp del: Run.simps)
qed

text \<open>
  C4. Plan construction should fail whenever the declared dependency edges contain a
  cycle. It does not when two tasks share an ID: \<open>ep.dependencies\<close> is keyed by ID and
  keeps the list of the last task only. For a task A that depends on itself, followed by
  a second task with ID A and no dependencies, the declared edges contain the cycle
  A \<rightarrow> A and \<open>NewExecutionPlan\<close> returns a plan.
\<close>

theorem self_dependency_behind_duplicate_ID_is_accepted:
  "(''A'', ''A'') \<in> (declaredEdges shadowedLoop)\<^sup>+ \<and> \<not> isl (NewExecutionPlan shadowedLoop)"
proof
  have "(ID (basicTest ''A'' [''A''] succeed :: unit Test), ''A'') \<in> declaredEdges shadowedLoop"
    unfolding declaredEdges_def shadowedLoop_def
    by (rule CollectI, intro exI[of _ "basicTest ''A'' [''A''] succeed"] exI[of _ "''A''"])
       (simp add: basicTest_def)
  then have "(''A'', ''A'') \<in> declaredEdges shadowedLoop" by (simp add: basicTest_def)
  then show "(''A'', ''A'') \<in> (declaredEdges shadowedLoop)\<^sup>+" by (rule r_into_trancl)
  show "\<not> isl (NewExecutionPlan shadowedLoop)"
    by (simp add: shadowedLoop_def plan_eval_defs)
qed

text \<open>
  C4, as the code has it. Plan construction fails if and only if the graph the plan holds
  (\<open>ep.dependencies\<close>) has a cycle. A failure always comes with a cycle in the declared
  edges; for task lists with distinct IDs the two graphs agree, and construction fails if
  and only if the declared edges contain a cycle. The error names a task of the list. The
  two-task set in which A depends on B and B on A is rejected with the
  circular-dependency error naming A, and no plan is returned.
\<close>

theorem plan_construction_fails_iff_cycle:
  "(isl (NewExecutionPlan ts) \<longleftrightarrow> cyclic (buildDependencies ts))
   \<and> (isl (NewExecutionPlan ts) \<longrightarrow> (\<exists>u. (u, u) \<in> (declaredEdges ts)\<^sup>+))
   \<and> (distinct (map ID ts) \<longrightarrow>
        (isl (NewExecutionPlan ts) \<longleftrightarrow> (\<exists>u. (u, u) \<in> (declaredEdges ts)\<^sup>+)))
   \<and> (\<forall>err. NewExecutionPlan ts = Inl err \<longrightarrow>
          (\<exists>t \<in> set ts. err = CircularDependencyInvolving (ID t)))
   \<and> NewExecutionPlan mutualAB = Inl (CircularDependencyInvolving ''A'')"
proof (intro conjI impI allI)
  show "isl (NewExecutionPlan ts) \<longleftrightarrow> cyclic (buildDependencies ts)"
    by (rule NewExecutionPlan_fails_iff)
  show "\<exists>u. (u, u) \<in> (declaredEdges ts)\<^sup>+" if "isl (NewExecutionPlan ts)"
    using that by (rule NewExecutionPlan_fails_declared_cycle)
  show "isl (NewExecutionPlan ts) \<longleftrightarrow> (\<exists>u. (u, u) \<in> (declaredEdges ts)\<^sup>+)"
    if "distinct (map ID ts)"
    using NewExecutionPlan_fails_iff[of ts] depEdges_eq_declared[OF that]
    by (simp add: cyclic_def)
  show "\<exists>t \<in> set ts. err = CircularDependencyInvolving (ID t)"
    if "NewExecutionPlan ts = Inl err" for err
    using that by (rule NewExecutionPlan_error_names_task)
  show "NewExecutionPlan mutualAB = Inl (CircularDependencyInvolving ''A'')"
    by (simp add: mutualAB_def plan_eval_defs hasCycle.simps hasCycleDeps.simps)
qed

text \<open>C4 on the mutual pair (rejected, cyclic) and on the chain (accepted, acyclic).\<close>

theorem plan_construction_fails_iff_cycle_witness:
  "distinct (map ID mutualAB) \<and> isl (NewExecutionPlan mutualAB)
   \<and> (\<exists>u. (u, u) \<in> (declaredEdges mutualAB)\<^sup>+)
   \<and> distinct (map ID chainAB) \<and> \<not> isl (NewExecutionPlan chainAB)
   \<and> \<not> (\<exists>u. (u, u) \<in> (declaredEdges chainAB)\<^sup>+)"
proof -
  have d1: "distinct (map ID mutualAB)" by (simp add: mutualAB_def basicTest_def)
  have d2: "distinct (map ID chainAB)" by (simp add: chainAB_def basicTest_def)
  have f1: "isl (NewExecutionPlan mutualAB)"
    by (simp add: mutualAB_def plan_eval_defs hasCycle.simps hasCycleDeps.simps)
  have f2: "\<not> isl (NewExecutionPlan chainAB)"
    by (simp add: chainAB_def plan_eval_defs hasCycle.simps hasCycleDeps.simps)
  from plan_construction_fails_iff_cycle[of mutualAB] plan_construction_fails_iff_cycle[of chainAB]
    d1 d2 f1 f2
  show ?thesis by blast
qed

text \<open>
  C10. \<open>NewExecutionPlan\<close> does not check that dependency IDs name tasks of the list:
  when task \<open>t\<close> lists a dependency \<open>d\<close> that is the ID of no task and the declared edges
  have no cycle, construction succeeds; and \<open>t\<close> is not among \<open>GetReadyTests\<close> after
  any sequence of \<open>MarkCompleted\<close> and \<open>MarkFailed\<close> calls that completes only tasks of
  the list, nor in any state a parallel run of an engine built from the list passes
  through (the engine completes only tasks it was given).
\<close>

theorem dangling_dependency_never_ready:
  assumes t: "t \<in> set ts" and d: "d \<in> set (Dependencies t)" and missing: "d \<notin> ID ` set ts"
    and acyclic: "\<not> (\<exists>u. (u, u) \<in> (declaredEdges ts)\<^sup>+)"
  shows "\<exists>p. NewExecutionPlan ts = Inr p
           \<and> (\<forall>marks. (\<forall>i. Completion i \<in> set marks \<longrightarrow> i \<in> ID ` set ts) \<longrightarrow>
                  t \<notin> set (GetReadyTests (fold applyMark marks p)))
           \<and> (\<forall>cp ee e s.
                  snd (NewExecutionEngine ts cp) = Inr ee \<longrightarrow>
                  rtranclp parStep (parInit ee e) s \<longrightarrow>
                    t \<notin> set (GetReadyTests (plan (eng s))))"
proof -
  from acyclic_declared_plan_succeeds[OF acyclic]
  obtain p where p: "NewExecutionPlan ts = Inr p" by (cases "NewExecutionPlan ts") auto
  from NewExecutionPlan_Inr[OF p] have c0: "completed p = {}"
    by (metis ExecutionPlan.select_convs(3))
  have marks: "t \<notin> set (GetReadyTests (fold applyMark marks p))"
    if "\<forall>i. Completion i \<in> set marks \<longrightarrow> i \<in> ID ` set ts" for marks
  proof -
    have "d \<notin> completed (fold applyMark marks p)"
      using that missing c0 by (auto simp: completed_fold_applyMark)
    with d show ?thesis by (rule not_ready_with_uncompleted_dependency)
  qed
  have par: "t \<notin> set (GetReadyTests (plan (eng s)))"
    if "snd (NewExecutionEngine ts cp) = Inr ee" "rtranclp parStep (parInit ee e) s"
    for cp ee and e :: "'a env" and s
  proof -
    have "planSound ts s"
      using that(2) planSound_init[OF that(1)] by (rule planSound_steps)
    then have "d \<notin> completed (plan (eng s))" using missing by (auto simp: planSound_def)
    with d show ?thesis by (rule not_ready_with_uncompleted_dependency)
  qed
  from p marks par show ?thesis by blast
qed

text \<open>C10 on a pair whose first task depends on the unknown ID "Z".\<close>

theorem dangling_dependency_never_ready_witness:
  "hd danglingPair \<in> set danglingPair
   \<and> ''Z'' \<in> set (Dependencies (hd danglingPair))
   \<and> ''Z'' \<notin> ID ` set danglingPair
   \<and> \<not> (\<exists>u. (u, u) \<in> (declaredEdges danglingPair)\<^sup>+)
   \<and> \<not> isl (NewExecutionPlan danglingPair)
   \<and> hd danglingPair
        \<notin> set (GetReadyTests
                 (fold applyMark [Completion ''B'', Failure ''A'']
                    (projr (NewExecutionPlan danglingPair))))"
proof -
  have a: "hd danglingPair \<in> set danglingPair"
    "''Z'' \<in> set (Dependencies (hd danglingPair))" "''Z'' \<notin> ID ` set danglingPair"
    by (simp_all add: danglingPair_def basicTest_def)
  have ok: "\<not> isl (NewExecutionPlan danglingPair)"
    by (simp add: danglingPair_def plan_eval_defs hasCycle.simps hasCycleDeps.simps)
  have dist: "distinct (map ID danglingPair)"
    by (simp add: danglingPair_def basicTest_def)
  have acyc: "\<not> (\<exists>u. (u, u) \<in> (declaredEdges danglingPair)\<^sup>+)"
    using ok NewExecutionPlan_fails_iff[of danglingPair] depEdges_eq_declared[OF dist]
    by (simp add: cyclic_def)
  have m: "\<forall>i. Completion i \<in> set [Completion ''B'', Failure ''A'']
              \<longrightarrow> i \<in> ID ` set danglingPair"
    by (simp add: danglingPair_def basicTest_def)
  from dangling_dependency_never_ready[OF a acyc] m
  have "hd danglingPair
        \<notin> set (GetReadyTests
                 (fold applyMark [Completion ''B'', Failure ''A'']
                    (projr (NewExecutionPlan danglingPair))))"
    by (metis sum.sel(2))
  with a acyc ok show ?thesis by blast
qed

end
